theory Spec2Isabelle
  imports Main "HOL-Library.AList" "HOL-Library.Sublist" "HOL-Library.Multiset"
begin

section \<open>Text\<close>

text \<open>
  A Python \<open>str\<close> is a sequence of Unicode code points, so a text is a list of code
  points. \<open>ascii\<close> writes an ASCII literal as such a list.
\<close>

type_synonym str = "nat list"

definition ascii :: "string \<Rightarrow> str" where
  "ascii s = map of_char s"

text \<open>
  \<open>text.encode('utf-8')\<close> raises \<open>UnicodeEncodeError\<close> on a surrogate code point
  (U+D800..U+DFFF); on every other text it succeeds.
\<close>

definition is_surrogate :: "nat \<Rightarrow> bool" where
  "is_surrogate c = (55296 \<le> c \<and> c \<le> 57343)"

definition utf8_encodable :: "str \<Rightarrow> bool" where
  "utf8_encodable t = (\<not> list_ex is_surrogate t)"

section \<open>TextCache (blog\_editor.py)\<close>

text \<open>
  The cache directory is the list of its regular files in the order \<open>os.listdir\<close>
  reports them. A file has a modification time and a content; the content is the decoded
  JSON object \<open>{'chunks': ..., 'timestamp': ...}\<close>, or \<open>None\<close> for a file that
  \<open>json.load\<close> and \<open>''.join(data['chunks'])\<close> cannot read (what a failed
  \<open>json.dump\<close> leaves behind, or a foreign file).
\<close>

type_synonym key = str

record cache_payload =
  chunks :: "str list"
  timestamp :: int

record cache_file =
  mtime :: int
  payload :: "cache_payload option"

type_synonym cache_dir = "(key \<times> cache_file) list"

text \<open>
  The environment of one call: the clock, and which of the operating-system calls
  succeed. Every failing call raises, and the \<open>try\<close> blocks of the source turn the
  exception into the result \<open>None\<close>.
\<close>

record io_env =
  clock :: int
  open_ok :: bool
  dump_ok :: bool
  listdir_ok :: bool
  remove_ok :: "key \<Rightarrow> bool"
  read_ok :: bool

definition cache_size :: nat where
  "cache_size = 10"

definition chunk_size :: nat where
  "chunk_size = 50000"

text \<open>\<open>get_cache_key\<close>: the MD5 digest (a parameter) of the UTF-8 encoding.\<close>

definition get_cache_key :: "(str \<Rightarrow> key) \<Rightarrow> str \<Rightarrow> key option" where
  "get_cache_key md5_hex t = (if utf8_encodable t then Some (md5_hex t) else None)"

text \<open>\<open>range(0, n, step)\<close> for a positive step, and the chunk comprehension.\<close>

definition range_step :: "nat \<Rightarrow> nat \<Rightarrow> nat list" where
  "range_step n step = map (\<lambda>j. j * step) [0..<(n + step - 1) div step]"

definition split_chunks :: "nat \<Rightarrow> str \<Rightarrow> str list" where
  "split_chunks cs t = map (\<lambda>i. take cs (drop i t)) (range_step (length t) cs)"

text \<open>
  \<open>files.sort(key=lambda x: x[1], reverse=True)\<close>: a stable sort into descending
  order (entries of equal key keep their order).
\<close>

definition sort_desc :: "(key \<times> int) list \<Rightarrow> (key \<times> int) list" where
  "sort_desc files = rev (sort_key snd (rev files))"

text \<open>
  \<open>_cleanup_old_cache\<close>. The loop over \<open>files[self.cache_size:]\<close> stops at the
  first \<open>os.remove\<close> that raises; a failing \<open>os.listdir\<close> removes nothing.
\<close>

definition list_files :: "cache_dir \<Rightarrow> (key \<times> int) list" where
  "list_files dir = map (\<lambda>(k, f). (k, mtime f)) dir"

definition doomed :: "io_env \<Rightarrow> cache_dir \<Rightarrow> key list" where
  "doomed io dir =
     takeWhile (remove_ok io) (map fst (drop cache_size (sort_desc (list_files dir))))"

definition cleanup_old_cache :: "io_env \<Rightarrow> cache_dir \<Rightarrow> cache_dir" where
  "cleanup_old_cache io dir =
     (if listdir_ok io then filter (\<lambda>(k, f). k \<notin> set (doomed io dir)) dir else dir)"

text \<open>\<open>save_to_cache\<close> returns the directory it leaves and the key, or \<open>None\<close>.\<close>

definition save_to_cache ::
  "(str \<Rightarrow> key) \<Rightarrow> io_env \<Rightarrow> cache_dir \<Rightarrow> str \<Rightarrow> cache_dir \<times> key option" where
  "save_to_cache md5_hex io dir t =
     (case get_cache_key md5_hex t of
        None \<Rightarrow> (dir, None)
      | Some cache_key \<Rightarrow>
          if \<not> open_ok io then (dir, None)
          else if \<not> dump_ok io then
            (AList.update cache_key \<lparr>mtime = clock io, payload = None\<rparr> dir, None)
          else
            (cleanup_old_cache io
               (AList.update cache_key
                  \<lparr>mtime = clock io,
                   payload = Some \<lparr>chunks = split_chunks chunk_size t, timestamp = clock io\<rparr>\<rparr>
                  dir),
             Some cache_key))"

text \<open>
  \<open>load_from_cache\<close>. With the key \<open>None\<close>, \<open>os.path.join\<close> raises a
  \<open>TypeError\<close>, which the \<open>try\<close> block turns into \<open>None\<close>.
\<close>

definition load_from_cache :: "io_env \<Rightarrow> cache_dir \<Rightarrow> key option \<Rightarrow> str option" where
  "load_from_cache io dir cache_key =
     (case cache_key of
        None \<Rightarrow> None
      | Some k \<Rightarrow>
          (case map_of dir k of
             None \<Rightarrow> None
           | Some f \<Rightarrow>
               if \<not> read_ok io then None
               else (case payload f of
                       None \<Rightarrow> None
                     | Some p \<Rightarrow> Some (concat (chunks p)))))"

text \<open>An environment in which every call succeeds.\<close>

definition io_fine :: "int \<Rightarrow> io_env" where
  "io_fine now =
     \<lparr>clock = now, open_ok = True, dump_ok = True, listdir_ok = True,
      remove_ok = (\<lambda>_. True), read_ok = True\<rparr>"

text \<open>
  A run of successive \<open>save_to_cache\<close> calls, each with the reading of the clock at
  its time and its text, every call of the operating system succeeding.
\<close>

definition save_texts :: "(str \<Rightarrow> key) \<Rightarrow> cache_dir \<Rightarrow> (int \<times> str) list \<Rightarrow> cache_dir" where
  "save_texts md5_hex dir saves =
     fold (\<lambda>(now, t) d. fst (save_to_cache md5_hex (io_fine now) d t)) saves dir"

text \<open>
  For the examples: the MD5 digest of the text \<open>a\<close> (and, on every other text, that of
  the empty text), and a cache directory that holds ten entries, all modified at time 7.
\<close>

definition sample_md5 :: "str \<Rightarrow> key" where
  "sample_md5 t =
     (if t = ascii ''a'' then ascii ''0cc175b9c0f1b6a831c399e269772661''
      else ascii ''d41d8cd98f00b204e9800998ecf8427e'')"

definition old_file :: cache_file where
  "old_file = \<lparr>mtime = 7, payload = Some \<lparr>chunks = [ascii ''x''], timestamp = 7\<rparr>\<rparr>"

definition ten_files :: cache_dir where
  "ten_files =
     [(ascii ''f0'', old_file), (ascii ''f1'', old_file), (ascii ''f2'', old_file),
      (ascii ''f3'', old_file), (ascii ''f4'', old_file), (ascii ''f5'', old_file),
      (ascii ''f6'', old_file), (ascii ''f7'', old_file), (ascii ''f8'', old_file),
      (ascii ''f9'', old_file)]"

section \<open>String operations of Python\<close>

text \<open>
  \<open>str.isspace\<close> of one code point: the white space that \<open>str.strip()\<close> and
  \<open>str.split()\<close> remove.
\<close>

definition isspace :: "nat \<Rightarrow> bool" where
  "isspace c =
     ((9 \<le> c \<and> c \<le> 13) \<or> (28 \<le> c \<and> c \<le> 32) \<or> c = 133 \<or> c = 160 \<or> c = 5760
      \<or> (8192 \<le> c \<and> c \<le> 8202) \<or> c = 8232 \<or> c = 8233 \<or> c = 8239 \<or> c = 8287
      \<or> c = 12288)"

definition strip :: "str \<Rightarrow> str" where
  "strip s = rev (dropWhile isspace (rev (dropWhile isspace s)))"

text \<open>\<open>s.split()\<close>: the maximal runs of characters that are not white space.\<close>

fun split_acc :: "str \<Rightarrow> str \<Rightarrow> str list" where
  "split_acc cur [] = (if cur = [] then [] else [cur])"
| "split_acc cur (c # cs) =
     (if isspace c then (if cur = [] then split_acc [] cs else cur # split_acc [] cs)
      else split_acc (cur @ [c]) cs)"

definition split_ws :: "str \<Rightarrow> str list" where
  "split_ws s = split_acc [] s"

text \<open>\<open>s.find(sep)\<close>, and \<open>s.split(sep, maxsplit)\<close> for a separator that is not empty.\<close>

fun find_sub :: "str \<Rightarrow> str \<Rightarrow> nat option" where
  "find_sub sep [] = (if sep = [] then Some 0 else None)"
| "find_sub sep (c # cs) =
     (if prefix sep (c # cs) then Some 0 else map_option Suc (find_sub sep cs))"

fun split_sep :: "str \<Rightarrow> nat \<Rightarrow> str \<Rightarrow> str list" where
  "split_sep sep 0 s = [s]"
| "split_sep sep (Suc n) s =
     (case find_sub sep s of
        None \<Rightarrow> [s]
      | Some i \<Rightarrow> take i s # split_sep sep n (drop (i + length sep) s))"

text \<open>
  \<open>s.replace(old, new)\<close>: every occurrence, left to right, without overlap. The
  counter is the number of characters of a replaced occurrence still to be skipped. With
  an empty \<open>old\<close>, Python puts \<open>new\<close> before every character and at the end.
\<close>

fun replace_from :: "str \<Rightarrow> str \<Rightarrow> nat \<Rightarrow> str \<Rightarrow> str" where
  "replace_from old new k [] = []"
| "replace_from old new (Suc k) (c # cs) = replace_from old new k cs"
| "replace_from old new 0 (c # cs) =
     (if prefix old (c # cs) then new @ replace_from old new (length old - 1) cs
      else c # replace_from old new 0 cs)"

definition replace :: "str \<Rightarrow> str \<Rightarrow> str \<Rightarrow> str" where
  "replace old new s =
     (if old = [] then concat (map (\<lambda>c. new @ [c]) s) @ new
      else replace_from old new 0 s)"

text \<open>\<open>str(n)\<close> for a counter: the decimal digits.\<close>

function str_of_nat :: "nat \<Rightarrow> str" where
  "str_of_nat n = (if n < 10 then [48 + n] else str_of_nat (n div 10) @ [48 + n mod 10])"
  by pat_completeness auto
termination
  by (relation "measure id") auto

declare str_of_nat.simps [simp del]

section \<open>MarkdownEditor: statistics and cached text (blog\_editor.py)\<close>

definition is_chinese :: "nat \<Rightarrow> bool" where
  "is_chinese c = (19968 \<le> c \<and> c \<le> 40959)"

text \<open>
  \<open>str.isalpha\<close> of one code point is membership in the Unicode letter categories.
  The model fixes it on ASCII (the letters A-Z and a-z) and on the CJK unified
  ideographs U+4E00..U+9FA5 (letters, category Lo, in every Unicode version); elsewhere
  the parameter \<open>letter\<close> stands for the Unicode database.
\<close>

definition isalpha :: "(nat \<Rightarrow> bool) \<Rightarrow> nat \<Rightarrow> bool" where
  "isalpha letter c =
     (if c < 128 then (65 \<le> c \<and> c \<le> 90) \<or> (97 \<le> c \<and> c \<le> 122)
      else if 19968 \<le> c \<and> c \<le> 40869 then True
      else letter c)"

definition chinese_count :: "str \<Rightarrow> nat" where
  "chinese_count t = length (filter is_chinese t)"

definition english_words :: "(nat \<Rightarrow> bool) \<Rightarrow> str \<Rightarrow> nat" where
  "english_words letter t = length (filter (list_ex (isalpha letter)) (split_ws t))"

definition count_words :: "(nat \<Rightarrow> bool) \<Rightarrow> str \<Rightarrow> nat" where
  "count_words letter t = chinese_count t + english_words letter t"

text \<open>
  The editor: the recorded cache key, the text held by the widget itself
  (\<open>super().setPlainText\<close> / \<open>super().toPlainText\<close>), and the word count.
\<close>

record editor =
  current_cache_key :: "key option"
  buffer :: str
  word_count :: nat

text \<open>\<open>toPlainText\<close>: the cached text when a key is recorded and the cache has it.\<close>

definition toPlainText :: "io_env \<Rightarrow> cache_dir \<Rightarrow> editor \<Rightarrow> str" where
  "toPlainText io dir ed =
     (case current_cache_key ed of
        None \<Rightarrow> buffer ed
      | Some k \<Rightarrow>
          if k = [] then buffer ed
          else (case load_from_cache io dir (Some k) of
                  Some cached_text \<Rightarrow> cached_text
                | None \<Rightarrow> buffer ed))"

definition update_statistics ::
  "(nat \<Rightarrow> bool) \<Rightarrow> io_env \<Rightarrow> cache_dir \<Rightarrow> editor \<Rightarrow> editor" where
  "update_statistics letter io dir ed =
     ed\<lparr>word_count := count_words letter (toPlainText io dir ed)\<rparr>"

definition setPlainText ::
  "(str \<Rightarrow> key) \<Rightarrow> (nat \<Rightarrow> bool) \<Rightarrow> io_env \<Rightarrow> cache_dir \<Rightarrow> editor \<Rightarrow> str
     \<Rightarrow> cache_dir \<times> editor" where
  "setPlainText md5_hex letter io dir ed t =
     (let (dir', k) = save_to_cache md5_hex io dir t
      in (dir', update_statistics letter io dir' (ed\<lparr>current_cache_key := k, buffer := t\<rparr>)))"

section \<open>Paths (posixpath)\<close>

text \<open>
  The functions of \<open>os.path\<close> that the source calls, as \<open>posixpath\<close> defines
  them: the separator is \<open>/\<close> (code point 47), the extension separator \<open>.\<close> (46).
\<close>

definition os_sep :: str where
  "os_sep = ascii ''/''"

definition path_join :: "str \<Rightarrow> str \<Rightarrow> str" where
  "path_join a b =
     (if prefix os_sep b then b
      else if a = [] \<or> suffix os_sep a then a @ b
      else a @ os_sep @ b)"

text \<open>\<open>p.rfind(c)\<close>: the last index of \<open>c\<close>, or \<open>-1\<close>.\<close>

definition rfind :: "nat \<Rightarrow> str \<Rightarrow> int" where
  "rfind c p =
     (if c \<in> set p then int (length p) - 1 - int (length (takeWhile (\<lambda>x. x \<noteq> c) (rev p)))
      else - 1)"

definition dirname :: "str \<Rightarrow> str" where
  "dirname p =
     (let head = take (nat (rfind 47 p + 1)) p
      in if head \<noteq> [] \<and> head \<noteq> replicate (length head) 47
         then rev (dropWhile (\<lambda>c. c = 47) (rev head))
         else head)"

definition splitext :: "str \<Rightarrow> str \<times> str" where
  "splitext p =
     (let sepIndex = rfind 47 p; dotIndex = rfind 46 p
      in if dotIndex > sepIndex \<and>
            list_ex (\<lambda>c. c \<noteq> 46) (take (nat (dotIndex - (sepIndex + 1))) (drop (nat (sepIndex + 1)) p))
         then (take (nat dotIndex) p, drop (nat dotIndex) p)
         else (p, []))"

text \<open>\<open>p.split('/')\<close> and \<open>'/'.join(comps)\<close>.\<close>

fun split_char :: "nat \<Rightarrow> str \<Rightarrow> str list" where
  "split_char c [] = [[]]"
| "split_char c (x # xs) =
     (if x = c then [] # split_char c xs
      else (case split_char c xs of [] \<Rightarrow> [[x]] | h # t \<Rightarrow> (x # h) # t))"

fun join_with :: "str \<Rightarrow> str list \<Rightarrow> str" where
  "join_with sep [] = []"
| "join_with sep [x] = x"
| "join_with sep (x # y # ys) = x @ sep @ join_with sep (y # ys)"

definition norm_step :: "nat \<Rightarrow> str list \<Rightarrow> str \<Rightarrow> str list" where
  "norm_step initial_slashes new_comps comp' =
     (if comp' = [] \<or> comp' = ascii ''.'' then new_comps
      else if comp' \<noteq> ascii ''..'' \<or> (initial_slashes = 0 \<and> new_comps = [])
              \<or> (new_comps \<noteq> [] \<and> last new_comps = ascii ''..'')
      then new_comps @ [comp']
      else if new_comps \<noteq> [] then butlast new_comps
      else new_comps)"

definition normpath :: "str \<Rightarrow> str" where
  "normpath path =
     (if path = [] then ascii ''.''
      else
        let initial_slashes =
              (if prefix os_sep path
               then (if prefix (ascii ''//'') path \<and> \<not> prefix (ascii ''///'') path
                     then 2 else 1)
               else 0);
            comps = foldl (norm_step initial_slashes) [] (split_char 47 path);
            p = replicate initial_slashes 47 @ join_with os_sep comps
        in if p = [] then ascii ''.'' else p)"

text \<open>\<open>os.path.abspath\<close>, with the working directory of the process as a parameter.\<close>

definition abspath :: "str \<Rightarrow> str \<Rightarrow> str" where
  "abspath cwd path =
     normpath (if prefix os_sep path then path else path_join cwd path)"

section \<open>FileManager (file\_manager.py)\<close>

datatype error = FileOperationError

definition delimiter :: str where
  "delimiter = ascii ''---''"

text \<open>
  \<open>yaml.dump\<close> and \<open>yaml.safe_load\<close> belong to the YAML library and are parameters:
  \<open>dump m\<close> is the text or \<open>None\<close> when it raises; \<open>safe_load s\<close> is \<open>None\<close>
  when it raises and otherwise the loaded object, itself \<open>None\<close> for an empty document.
\<close>

definition generate_frontmatter :: "('m \<Rightarrow> str option) \<Rightarrow> 'm \<Rightarrow> error + str" where
  "generate_frontmatter dump metadata =
     (case dump metadata of None \<Rightarrow> Inl FileOperationError | Some y \<Rightarrow> Inr y)"

text \<open>The text that the four \<open>f.write\<close> calls of \<open>save_blog\<close> put into index.md.\<close>

definition index_md :: "str \<Rightarrow> str \<Rightarrow> str" where
  "index_md frontmatter content =
     ascii ''---\<newline>'' @ frontmatter @ ascii ''---\<newline>\<newline>'' @ content"

text \<open>The loop over \<open>images.items()\<close>: the reference to every image that exists is rewritten.\<close>

definition rewrite_images :: "(str \<Rightarrow> bool) \<Rightarrow> (str \<times> str) list \<Rightarrow> str \<Rightarrow> str" where
  "rewrite_images exists images content =
     fold (\<lambda>(src_path, dest_name) c.
             if exists src_path then replace src_path (ascii ''./'' @ dest_name) c else c)
       images content"

text \<open>
  Both functions open index.md in text mode with \<open>encoding='utf-8'\<close>. Writing encodes
  the characters, which raises on a lone surrogate, and leaves \<open>\n\<close> as it is
  (\<open>os.linesep\<close> of the POSIX paths used throughout); \<open>write_text\<close> is the text the file
  then holds. Reading translates every \<open>\r\n\<close> and every remaining \<open>\r\<close> into
  \<open>\n\<close> (universal newlines); \<open>read_text\<close> is what \<open>f.read()\<close> returns for a file
  holding the given text.
\<close>

definition write_text :: "str \<Rightarrow> str option" where
  "write_text s = (if utf8_encodable s then Some s else None)"

fun universal_newlines :: "str \<Rightarrow> str" where
  "universal_newlines [] = []"
| "universal_newlines [c] = (if c = 13 then [10] else [c])"
| "universal_newlines (c # d # cs) =
     (if c = 13 \<and> d = 10 then 10 # universal_newlines cs
      else if c = 13 then 10 # universal_newlines (d # cs)
      else c # universal_newlines (d # cs))"

definition read_text :: "str \<Rightarrow> str" where
  "read_text s = universal_newlines s"

text \<open>
  \<open>save_blog\<close> returns the article folder and the text that index.md holds afterwards;
  \<open>fs_ok\<close> says whether \<open>os.makedirs\<close>, \<open>shutil.copy2\<close> and \<open>open\<close> succeed.
  Every exception becomes a \<open>FileOperationError\<close>.
\<close>

definition save_blog ::
  "('m \<Rightarrow> str option) \<Rightarrow> (str \<Rightarrow> bool) \<Rightarrow> bool \<Rightarrow> str \<Rightarrow> str \<Rightarrow> str \<Rightarrow> 'm
     \<Rightarrow> (str \<times> str) list \<Rightarrow> error + (str \<times> str)" where
  "save_blog dump exists fs_ok save_path folder_name content metadata images =
     (if save_path = [] then Inl FileOperationError
      else if \<not> fs_ok then Inl FileOperationError
      else (case generate_frontmatter dump metadata of
              Inl e \<Rightarrow> Inl e
            | Inr frontmatter \<Rightarrow>
                (case write_text (index_md frontmatter (rewrite_images exists images content)) of
                   None \<Rightarrow> Inl FileOperationError
                 | Some written \<Rightarrow> Inr (path_join save_path folder_name, written))))"

text \<open>
  \<open>import_markdown\<close> on the text that \<open>f.read()\<close> returns (\<open>None\<close> when the file
  cannot be read). When \<open>split\<close> yields fewer than three parts the unpacking raises, and the
  outer handler raises \<open>FileOperationError\<close>.
\<close>

definition import_markdown ::
  "(str \<Rightarrow> 'm option option) \<Rightarrow> str option \<Rightarrow> error + (str \<times> 'm option)" where
  "import_markdown safe_load file =
     (case file of
        None \<Rightarrow> Inl FileOperationError
      | Some content \<Rightarrow>
          if prefix delimiter content then
            (case split_sep delimiter 2 content of
               [_, frontmatter, content'] \<Rightarrow>
                 (case safe_load frontmatter of
                    Some metadata \<Rightarrow> Inr (strip content', metadata)
                  | None \<Rightarrow> Inr (strip (frontmatter @ delimiter @ content'), None))
             | _ \<Rightarrow> Inl FileOperationError)
          else Inr (strip content, None))"

text \<open>
  \<open>MarkdownEditor.import_markdown\<close> (blog\_editor.py) splits the same way. The result
  is the text it passes to \<open>setPlainText\<close> and the object it passes to
  \<open>update_metadata\<close>, if it calls it; \<open>None\<close> when the unpacking raises and the
  handler only prints.
\<close>

definition editor_import ::
  "(str \<Rightarrow> 'm option option) \<Rightarrow> str \<Rightarrow> (str \<times> 'm option option) option" where
  "editor_import safe_load content =
     (if prefix delimiter content then
        (case split_sep delimiter 2 content of
           [_, frontmatter, content'] \<Rightarrow>
             (case safe_load frontmatter of
                Some metadata \<Rightarrow> Some (strip content', Some metadata)
              | None \<Rightarrow> Some (strip (frontmatter @ delimiter @ content'), None))
         | _ \<Rightarrow> None)
      else Some (strip content, None))"

text \<open>A returned body has no white space at its two ends.\<close>

definition no_space_at_ends :: "str \<Rightarrow> bool" where
  "no_space_at_ends s = (s = [] \<or> (\<not> isspace (hd s) \<and> \<not> isspace (last s)))"

text \<open>
  For the examples: the metadata \<open>{'title': 'Hi'}\<close>, and what PyYAML does on the texts
  of the examples. \<open>yaml.dump\<close> of that metadata is the line \<open>title: Hi\<close>, which
  \<open>yaml.safe_load\<close> loads back (also after a newline); the block \<open>[bad\<close>, a flow
  sequence that is not closed, makes \<open>safe_load\<close> raise. The two functions say nothing
  true of PyYAML on other arguments.
\<close>

definition hi_meta :: "(str \<times> str) list" where
  "hi_meta = [(ascii ''title'', ascii ''Hi'')]"

definition sample_dump :: "(str \<times> str) list \<Rightarrow> str option" where
  "sample_dump m = (if m = hi_meta then Some (ascii ''title: Hi\<newline>'') else None)"

definition sample_load :: "str \<Rightarrow> (str \<times> str) list option option" where
  "sample_load s =
     (if s = ascii ''\<newline>title: Hi\<newline>'' then Some (Some hi_meta) else None)"

section \<open>FileManager.ensure\_unique\_filename\<close>

text \<open>
  The \<open>while\<close> loop may run forever (when every candidate exists), so it is a partial
  function: \<open>None\<close> stands for the loop that does not return.
\<close>

partial_function (option) unique_loop ::
  "(str \<Rightarrow> bool) \<Rightarrow> str \<Rightarrow> str \<Rightarrow> str \<Rightarrow> nat \<Rightarrow> str \<Rightarrow> str option" where
  "unique_loop exists folder_path name ext counter new_filename =
     (if exists (path_join folder_path new_filename)
      then unique_loop exists folder_path name ext (counter + 1)
             (name @ ascii ''_'' @ str_of_nat counter @ ext)
      else Some new_filename)"

declare unique_loop.simps [code]

definition ensure_unique_filename :: "(str \<Rightarrow> bool) \<Rightarrow> str \<Rightarrow> str \<Rightarrow> str option" where
  "ensure_unique_filename exists folder_path filename =
     (let (name, ext) = splitext filename
      in unique_loop exists folder_path name ext 1 filename)"

text \<open>The candidate that the loop tries in its \<open>k\<close>-th round.\<close>

definition candidate :: "str \<Rightarrow> nat \<Rightarrow> str" where
  "candidate filename k =
     (if k = 0 then filename
      else fst (splitext filename) @ ascii ''_'' @ str_of_nat k @ snd (splitext filename))"

section \<open>BlogEditor.update\_preview: image paths (blog\_editor.py)\<close>

text \<open>
  The pattern \<open>!\[(.*?)\]\((.*?)\)\<close>. A dot matches every character but the newline
  (10), and both groups are lazy, so a match at \<open>![\<close> takes the first \<open>](\<close> and
  then the first \<open>)\<close>, each on the same line; if the first \<open>](\<close> has no \<open>)\<close> after
  it on the line, no later one has.
\<close>

fun find_on_line :: "str \<Rightarrow> str \<Rightarrow> nat option" where
  "find_on_line needle [] = None"
| "find_on_line needle (c # cs) =
     (if prefix needle (c # cs) then Some 0
      else if c = 10 then None
      else map_option Suc (find_on_line needle cs))"

definition match_image :: "str \<Rightarrow> (str \<times> str \<times> nat) option" where
  "match_image s =
     (if prefix (ascii ''!['') s then
        (case find_on_line (ascii '']('') (drop 2 s) of
           None \<Rightarrow> None
         | Some i \<Rightarrow>
             (case find_on_line (ascii '')'') (drop (i + 4) s) of
                None \<Rightarrow> None
              | Some j \<Rightarrow> Some (take i (drop 2 s), take j (drop (i + 4) s), i + j + 5)))
      else None)"

text \<open>
  \<open>re.sub(pattern, replace_path, md)\<close>: the matches from left to right, without
  overlap; the counter is the rest of the current match.
\<close>

fun re_sub :: "(str \<Rightarrow> str \<Rightarrow> str) \<Rightarrow> nat \<Rightarrow> str \<Rightarrow> str" where
  "re_sub repl k [] = []"
| "re_sub repl (Suc k) (c # cs) = re_sub repl k cs"
| "re_sub repl 0 (c # cs) =
     (case match_image (c # cs) of
        Some (alt, path, n) \<Rightarrow> repl alt path @ re_sub repl (n - 1) cs
      | None \<Rightarrow> c # re_sub repl 0 cs)"

definition image_md :: "str \<Rightarrow> str \<Rightarrow> str" where
  "image_md alt target = ascii ''!['' @ alt @ ascii '']('' @ target @ ascii '')''"

definition replace_path :: "str \<Rightarrow> str \<Rightarrow> str \<Rightarrow> str \<Rightarrow> str" where
  "replace_path save_path cwd alt path =
     (if prefix (ascii ''http://'') path \<or> prefix (ascii ''https://'') path
         \<or> prefix (ascii ''file:///'') path
      then image_md alt path
      else
        let abs_path =
              (if prefix (ascii ''./'') path \<or> prefix (ascii ''../'') path
               then abspath cwd (path_join (dirname save_path) path)
               else abspath cwd path);
            url_path = ascii ''file:///'' @ replace os_sep (ascii ''/'') abs_path
        in image_md alt url_path)"

definition path_to_url :: "str \<Rightarrow> str \<Rightarrow> str \<Rightarrow> str" where
  "path_to_url save_path cwd md = re_sub (replace_path save_path cwd) 0 md"

section \<open>AutoSaver (blog\_editor.py)\<close>

datatype jval = JStr str | JList "str list"

record form =
  title :: str
  description :: str
  folder :: str
  date :: str
  tags :: "str list"
  language :: str
  color :: str
  image_path :: str

text \<open>
  The dictionary literal of \<open>auto_save\<close>, as its items in order. \<open>last_metadata\<close> is
  only ever \<open>{}\<close> or such a dictionary, so that two of them are equal as dictionaries
  exactly when the lists are equal.
\<close>

definition current_metadata :: "form \<Rightarrow> (str \<times> jval) list" where
  "current_metadata f =
     [(ascii ''title'', JStr (title f)),
      (ascii ''description'', JStr (description f)),
      (ascii ''folder'', JStr (folder f)),
      (ascii ''date'', JStr (date f)),
      (ascii ''tags'', JList (tags f)),
      (ascii ''language'', JStr (language f)),
      (ascii ''color'', JStr (color f)),
      (ascii ''image_path'', JStr (image_path f))]"

text \<open>
  A write either succeeds, or fails in \<open>open\<close> (the file is left as it was), or fails
  after \<open>open\<close> has truncated the file (a text that cannot be encoded, a full disk).
\<close>

datatype write_outcome = Succeeds | OpenFails | WriteFails

record 'a recovery_file =
  data :: 'a
  modified :: int

record autosaver =
  last_content :: str
  last_metadata :: "(str \<times> jval) list"
  content_md :: "str option recovery_file option"
  metadata_json :: "(str \<times> jval) list option recovery_file option"

text \<open>
  The content of a recovery file is \<open>Some\<close> of what was written, or \<open>None\<close> after a
  write that failed halfway.
\<close>

definition write_recovery ::
  "write_outcome \<Rightarrow> int \<Rightarrow> 'a \<Rightarrow> 'a option recovery_file option \<Rightarrow> 'a option recovery_file option" where
  "write_recovery outcome now v old =
     (case outcome of
        Succeeds \<Rightarrow> Some \<lparr>data = Some v, modified = now\<rparr>
      | OpenFails \<Rightarrow> old
      | WriteFails \<Rightarrow> Some \<lparr>data = None, modified = now\<rparr>)"

definition auto_save ::
  "write_outcome \<Rightarrow> write_outcome \<Rightarrow> int \<Rightarrow> str \<Rightarrow> form \<Rightarrow> autosaver \<Rightarrow> autosaver" where
  "auto_save content_write metadata_write now current_content f st =
     (if current_content \<noteq> last_content st \<or> current_metadata f \<noteq> last_metadata st then
        let st1 = st\<lparr>content_md := write_recovery content_write now current_content (content_md st)\<rparr>
        in if content_write \<noteq> Succeeds then st1
           else
             let st2 = st1\<lparr>metadata_json :=
                          write_recovery metadata_write now (current_metadata f) (metadata_json st1)\<rparr>
             in if metadata_write \<noteq> Succeeds then st2
                else st2\<lparr>last_content := current_content, last_metadata := current_metadata f\<rparr>
      else st)"

definition autosaver_init :: autosaver where
  "autosaver_init =
     \<lparr>last_content = [], last_metadata = [], content_md = None, metadata_json = None\<rparr>"

text \<open>A filled-in form, for the examples.\<close>

definition draft_form :: form where
  "draft_form =
     \<lparr>title = ascii ''T'', description = [], folder = ascii ''post'',
      date = ascii ''2024-01-01'', tags = [ascii ''a''], language = ascii ''English'',
      color = ascii ''#FFFFFF'', image_path = []\<rparr>"

section \<open>Chunking is lossless\<close>

lemma concat_chunks_prefix:
  "concat (map (\<lambda>j. take cs (drop (j * cs) t)) [0..<k]) = take (k * cs) t"
proof (induction k)
  case 0
  show ?case by simp
next
  case (Suc k)
  have "take (k * cs) t @ take cs (drop (k * cs) t) = take (k * cs + cs) t"
    by (simp add: take_add)
  with Suc show ?case by (simp add: add.commute)
qed

lemma concat_split_chunks:
  assumes "0 < cs"
  shows "concat (split_chunks cs t) = t"
proof -
  have "length t \<le> ((length t + cs - 1) div cs) * cs"
  proof -
    have "(length t + cs - 1) mod cs < cs" using assms by simp
    moreover have "((length t + cs - 1) div cs) * cs + (length t + cs - 1) mod cs
        = length t + cs - 1" by simp
    ultimately show ?thesis by linarith
  qed
  then show ?thesis
    by (simp add: split_chunks_def range_step_def map_map comp_def concat_chunks_prefix)
qed

section \<open>Reading the text back\<close>

lemma chunk_size_pos: "0 < chunk_size"
  by (simp add: chunk_size_def)

lemma map_of_filter_key:
  "map_of (filter (\<lambda>(k, f). Q k) xs) k = (if Q k then map_of xs k else None)"
  by (induction xs) auto

lemma map_of_cleanup:
  "map_of (cleanup_old_cache io dir) k = None
     \<or> map_of (cleanup_old_cache io dir) k = map_of dir k"
  by (simp add: cleanup_old_cache_def map_of_filter_key)

lemma load_after_save:
  assumes "save_to_cache h io dir t = (dir', Some k)"
  shows "load_from_cache io2 dir' (Some k) = None \<or> load_from_cache io2 dir' (Some k) = Some t"
proof -
  let ?F = "\<lparr>mtime = clock io,
       payload = Some \<lparr>chunks = split_chunks chunk_size t, timestamp = clock io\<rparr>\<rparr>"
  from assms have d: "dir' = cleanup_old_cache io (AList.update k ?F dir)"
    by (auto simp: save_to_cache_def split: option.splits if_splits)
  have "map_of dir' k = None \<or> map_of dir' k = Some ?F"
    using map_of_cleanup [of io "AList.update k ?F dir" k] by (simp add: d update_conv')
  then show ?thesis
    by (auto simp: load_from_cache_def concat_split_chunks chunk_size_pos)
qed

text \<open>
  C5. A \<open>setPlainText\<close> of \<open>t\<close> followed by \<open>toPlainText\<close> returns \<open>t\<close>: for every
  hash function, every previous editor state and cache directory, and whatever the
  environment does during the write (\<open>io\<close>) and during the read (\<open>io2\<close>): the write may
  fail (no key is recorded and the widget's own text is served), the entry may be evicted
  at once or be unreadable (again the widget's text), or the entry is read back.
\<close>

theorem read_after_write:
  "toPlainText io2 (fst (setPlainText h letter io dir ed t))
     (snd (setPlainText h letter io dir ed t)) = t"
proof -
  obtain dir' k where s: "save_to_cache h io dir t = (dir', k)"
    by (cases "save_to_cache h io dir t")
  show ?thesis
  proof (cases k)
    case None
    with s show ?thesis
      by (simp add: setPlainText_def update_statistics_def toPlainText_def)
  next
    case (Some cache_key)
    with s load_after_save [of h io dir t dir' cache_key io2] show ?thesis
      by (auto simp: setPlainText_def update_statistics_def toPlainText_def
          split: option.splits)
  qed
qed

theorem read_after_write_witness:
  "toPlainText (io_fine 8)
     (fst (setPlainText (\<lambda>_. ascii ''0cc175b9c0f1b6a831c399e269772661'') (\<lambda>_. False)
             (io_fine 7) []
             \<lparr>current_cache_key = None, buffer = ascii ''old'', word_count = 0\<rparr> (ascii ''a'')))
     (snd (setPlainText (\<lambda>_. ascii ''0cc175b9c0f1b6a831c399e269772661'') (\<lambda>_. False)
             (io_fine 7) []
             \<lparr>current_cache_key = None, buffer = ascii ''old'', word_count = 0\<rparr> (ascii ''a'')))
   = ascii ''a''"
  by (rule read_after_write)

section \<open>Word count\<close>

text \<open>
  C7. On the text \<open>\<^verbatim>\<open>U+4F60 U+597D hello world\<close>\<close> (two Chinese characters, a space,
  \<open>hello world\<close>) the code counts 2 Chinese characters and 3 tokens with an alphabetic
  character, 5 in all, and not 2 and 4: \<open>str.isalpha\<close> holds of a Chinese character, so
  the token of the two Chinese characters is counted once more among the
  \<open>english_words\<close>. This holds whatever the Unicode database says of other characters.
\<close>

theorem word_count_chinese_token:
  "chinese_count ([20320, 22909] @ ascii '' hello world'') = 2
   \<and> english_words letter ([20320, 22909] @ ascii '' hello world'') = 3
   \<and> count_words letter ([20320, 22909] @ ascii '' hello world'') = 5"
  by (simp add: count_words_def chinese_count_def english_words_def is_chinese_def
      split_ws_def ascii_def isspace_def isalpha_def)

section \<open>Image paths in the preview\<close>

lemma re_sub_skip: "re_sub repl k s = re_sub repl 0 (drop k s)"
proof (induction k arbitrary: s)
  case 0
  show ?case by simp
next
  case (Suc k)
  then show ?case by (cases s) simp_all
qed

text \<open>
  C6. With the save directory \<open>/articles/post1\<close>, the reference \<open>./cover.png\<close> is
  resolved against \<open>os.path.dirname(self.save_path)\<close>, the parent \<open>/articles\<close>: the
  preview gets the URL of \<open>/articles/cover.png\<close>, not of \<open>/articles/post1/cover.png\<close>,
  whatever the working directory is.
\<close>

theorem preview_resolves_against_parent:
  "path_to_url (ascii ''/articles/post1'') cwd (ascii ''![cover](./cover.png)'')
     = ascii ''![cover](file:////articles/cover.png)''"
  by (simp add: path_to_url_def match_image_def ascii_def replace_path_def image_md_def
      abspath_def path_join_def dirname_def rfind_def normpath_def os_sep_def norm_step_def
      replace_def suffix_def re_sub_skip [of _ "numeral n" for n])

section \<open>Autosave\<close>

text \<open>
  C8. One tick of \<open>auto_save\<close>. When the current content and the current metadata both
  equal the last written snapshot, the state is unchanged, whatever the writes would do:
  no recovery file is written or touched. When either differs and both writes succeed,
  both files are overwritten with the current values and the time of the tick, the
  snapshot becomes the current pair, and the state has changed.
\<close>

theorem autosave_writes_iff_changed:
  "(current_content = last_content st \<and> current_metadata f = last_metadata st \<longrightarrow>
      auto_save content_write metadata_write now current_content f st = st)
   \<and> (current_content \<noteq> last_content st \<or> current_metadata f \<noteq> last_metadata st \<longrightarrow>
      auto_save Succeeds Succeeds now current_content f st =
        \<lparr>last_content = current_content, last_metadata = current_metadata f,
         content_md = Some \<lparr>data = Some current_content, modified = now\<rparr>,
         metadata_json = Some \<lparr>data = Some (current_metadata f), modified = now\<rparr>\<rparr>
      \<and> auto_save Succeeds Succeeds now current_content f st \<noteq> st)"
proof -
  have "auto_save Succeeds Succeeds now current_content f st \<noteq> st"
    if "current_content \<noteq> last_content st \<or> current_metadata f \<noteq> last_metadata st"
  proof
    assume e: "auto_save Succeeds Succeeds now current_content f st = st"
    have "last_content (auto_save Succeeds Succeeds now current_content f st) = current_content"
      "last_metadata (auto_save Succeeds Succeeds now current_content f st) = current_metadata f"
      using that by (auto simp: auto_save_def write_recovery_def Let_def)
    with e that show False by simp
  qed
  then show ?thesis
    by (auto simp: auto_save_def write_recovery_def Let_def)
qed

theorem autosave_writes_iff_changed_witness:
  "auto_save Succeeds Succeeds 60 (ascii ''draft'') draft_form autosaver_init =
        \<lparr>last_content = ascii ''draft'', last_metadata = current_metadata draft_form,
         content_md = Some \<lparr>data = Some (ascii ''draft''), modified = 60\<rparr>,
         metadata_json = Some \<lparr>data = Some (current_metadata draft_form), modified = 60\<rparr>\<rparr>
   \<and> auto_save Succeeds Succeeds 120 (ascii ''draft'') draft_form
        (auto_save Succeeds Succeeds 60 (ascii ''draft'') draft_form autosaver_init)
      = auto_save Succeeds Succeeds 60 (ascii ''draft'') draft_form autosaver_init"
proof -
  have a: "ascii ''draft'' \<noteq> last_content autosaver_init" by (simp add: autosaver_init_def ascii_def)
  note first = autosave_writes_iff_changed [of "ascii ''draft''" autosaver_init draft_form Succeeds Succeeds 60]
  from first a have 1: "auto_save Succeeds Succeeds 60 (ascii ''draft'') draft_form autosaver_init =
        \<lparr>last_content = ascii ''draft'', last_metadata = current_metadata draft_form,
         content_md = Some \<lparr>data = Some (ascii ''draft''), modified = 60\<rparr>,
         metadata_json = Some \<lparr>data = Some (current_metadata draft_form), modified = 60\<rparr>\<rparr>"
    by blast
  have 2: "auto_save Succeeds Succeeds 120 (ascii ''draft'') draft_form
        (auto_save Succeeds Succeeds 60 (ascii ''draft'') draft_form autosaver_init)
      = auto_save Succeeds Succeeds 60 (ascii ''draft'') draft_form autosaver_init"
    using autosave_writes_iff_changed [of "ascii ''draft''"
        "auto_save Succeeds Succeeds 60 (ascii ''draft'') draft_form autosaver_init"
        draft_form Succeeds Succeeds 120]
    by (simp add: 1)
  from 1 2 show ?thesis by blast
qed

section \<open>Frontmatter\<close>

lemma strip_ends: "no_space_at_ends (strip s)"
proof -
  let ?u = "dropWhile isspace s"
  let ?v = "dropWhile isspace (rev ?u)"
  show ?thesis
  proof (cases "?v = []")
    case True
    then show ?thesis by (simp add: strip_def no_space_at_ends_def)
  next
    case False
    then have hv: "\<not> isspace (hd ?v)" by (rule hd_dropWhile)
    have "?u = [] \<Longrightarrow> ?v = []" by (auto dest: set_dropWhileD)
    with False have u: "?u \<noteq> []" by blast
    then have hu: "\<not> isspace (hd ?u)" by (rule hd_dropWhile)
    have "rev ?u = takeWhile isspace (rev ?u) @ ?v" by simp
    then have "last (rev ?u) = last ?v" using False by (metis last_append)
    then have "last ?v = hd ?u" using u by (simp add: last_rev)
    with hu hv False show ?thesis
      by (simp add: strip_def no_space_at_ends_def hd_rev last_rev)
  qed
qed

lemma find_sub_None: "find_sub sep s = None \<longleftrightarrow> (\<forall>j\<le>length s. \<not> prefix sep (drop j s))"
proof (induction s)
  case Nil
  show ?case by simp
next
  case (Cons c cs)
  show ?case
  proof (cases "prefix sep (c # cs)")
    case True
    then show ?thesis by force
  next
    case False
    have "(\<forall>j\<le>length (c # cs). \<not> prefix sep (drop j (c # cs)))
        \<longleftrightarrow> (\<forall>j\<le>length cs. \<not> prefix sep (drop j cs))"
      (is "?L \<longleftrightarrow> ?R")
    proof
      assume l: ?L
      show ?R
      proof (intro allI impI)
        fix j assume "j \<le> length cs"
        with l have "\<not> prefix sep (drop (Suc j) (c # cs))" by (metis Suc_le_mono length_Cons)
        then show "\<not> prefix sep (drop j cs)" by simp
      qed
    next
      assume r: ?R
      show ?L
      proof (intro allI impI)
        fix j assume j: "j \<le> length (c # cs)"
        show "\<not> prefix sep (drop j (c # cs))"
        proof (cases j)
          case 0
          with False show ?thesis by simp
        next
          case (Suc k)
          with j r show ?thesis by simp
        qed
      qed
    qed
    with False Cons show ?thesis by simp
  qed
qed

lemma find_sub_append:
  assumes "find_sub sep (p @ butlast sep) = None" and "sep \<noteq> []"
  shows "find_sub sep (p @ sep @ r) = Some (length p)"
  using assms
proof (induction p)
  case Nil
  then show ?case by (cases sep) simp_all
next
  case (Cons c p)
  from Cons.prems have np: "\<not> prefix sep ((c # p) @ butlast sep)" and
    rest: "find_sub sep (p @ butlast sep) = None"
    by (auto split: if_splits)
  have "\<not> prefix sep ((c # p) @ sep @ r)"
  proof
    assume a: "prefix sep ((c # p) @ sep @ r)"
    have "length sep \<le> length ((c # p) @ butlast sep)" by simp
    moreover have "(c # p) @ sep @ r = ((c # p) @ butlast sep) @ ([last sep] @ r)"
      using Cons.prems(2) by simp
    ultimately have "prefix sep ((c # p) @ butlast sep)"
      using a by (metis prefix_length_prefix prefixI)
    with np show False by simp
  qed
  with Cons.IH [OF rest Cons.prems(2)] show ?case by simp
qed

lemma find_sub_here: "sep \<noteq> [] \<Longrightarrow> find_sub sep (sep @ x) = Some 0"
  by (cases sep) simp_all

lemma butlast_delimiter: "butlast delimiter = ascii ''--''"
  by (simp add: delimiter_def ascii_def)

lemma split_document:
  assumes "find_sub delimiter (fm @ ascii ''--'') = None"
  shows "split_sep delimiter 2 (delimiter @ fm @ delimiter @ rest) = [[], fm, rest]"
proof -
  have d: "delimiter \<noteq> []" "length delimiter = 3" by (simp_all add: delimiter_def ascii_def)
  have 1: "find_sub delimiter (delimiter @ fm @ delimiter @ rest) = Some 0"
    using d by (intro find_sub_here)
  have 2: "find_sub delimiter (fm @ delimiter @ rest) = Some (length fm)"
    using assms d by (intro find_sub_append) (simp_all add: butlast_delimiter)
  have "split_sep delimiter (Suc (Suc 0)) (delimiter @ fm @ delimiter @ rest) = [[], fm, rest]"
    by (simp add: 1 2 d)
  then show ?thesis by (simp add: numeral_2_eq_2)
qed

lemma import_parse_failure:
  assumes "find_sub delimiter (fm @ ascii ''--'') = None" and "safe_load fm = None"
  shows "import_markdown safe_load (Some (delimiter @ fm @ delimiter @ rest))
           = Inr (strip (fm @ delimiter @ rest), None)"
    and "editor_import safe_load (delimiter @ fm @ delimiter @ rest)
           = Some (strip (fm @ delimiter @ rest), None)"
  using assms by (simp_all add: import_markdown_def editor_import_def split_document)

lemma import_parse_success:
  assumes "find_sub delimiter (fm @ ascii ''--'') = None" and "safe_load fm = Some m"
  shows "import_markdown safe_load (Some (delimiter @ fm @ delimiter @ rest)) = Inr (strip rest, m)"
  using assms by (simp add: import_markdown_def split_document)

lemma strip_newlines: "strip (ascii ''\<newline>\<newline>'' @ b) = strip b"
  by (simp add: strip_def ascii_def isspace_def)

lemma index_md_shape:
  "index_md y b = delimiter @ (ascii ''\<newline>'' @ y) @ delimiter @ (ascii ''\<newline>\<newline>'' @ b)"
  by (simp add: index_md_def delimiter_def ascii_def)


lemma strip_id: "no_space_at_ends s \<Longrightarrow> strip s = s"
proof (cases "s = []")
  case True
  then show ?thesis by (simp add: strip_def)
next
  case False
  assume "no_space_at_ends s"
  with False have h: "\<not> isspace (hd s)" and l: "\<not> isspace (last s)"
    by (simp_all add: no_space_at_ends_def)
  from False h have 1: "dropWhile isspace s = s" by (cases s) simp_all
  from False l have 2: "dropWhile isspace (rev s) = rev s"
    by (cases "rev s") (simp_all add: last_rev [symmetric] hd_rev)
  show ?thesis by (simp add: strip_def 1 2)
qed

text \<open>
  C9. Whenever \<open>import_markdown\<close> returns, the returned body has no white space at its
  beginning or end: each of the three return statements strips it. The witness runs the
  three paths: a block that parses, a block that does not, and no frontmatter.
\<close>

theorem import_body_stripped:
  assumes "import_markdown safe_load file = Inr (body, md)"
  shows "no_space_at_ends body"
  using assms
  by (auto simp: import_markdown_def strip_ends
      split: option.splits if_splits list.splits)

theorem import_body_stripped_witness:
  "import_markdown sample_load (Some (ascii ''---\<newline>title: Hi\<newline>---\<newline>\<newline>Body\<newline>''))
     = Inr (ascii ''Body'', Some hi_meta)
   \<and> import_markdown sample_load (Some (ascii ''---\<newline>[bad\<newline>---\<newline>body\<newline>''))
     = Inr (ascii ''[bad\<newline>---\<newline>body'', None)
   \<and> import_markdown sample_load (Some (ascii '' plain text\<newline>''))
     = Inr (ascii ''plain text'', None)
   \<and> no_space_at_ends (ascii ''Body'')
   \<and> no_space_at_ends (ascii ''[bad\<newline>---\<newline>body'')
   \<and> no_space_at_ends (ascii ''plain text'')"
proof -
  have 1: "import_markdown sample_load (Some (ascii ''---\<newline>title: Hi\<newline>---\<newline>\<newline>Body\<newline>''))
     = Inr (ascii ''Body'', Some hi_meta)"
    by (simp add: import_markdown_def sample_load_def delimiter_def ascii_def strip_def
        isspace_def numeral_2_eq_2)
  have 2: "import_markdown sample_load (Some (ascii ''---\<newline>[bad\<newline>---\<newline>body\<newline>''))
     = Inr (ascii ''[bad\<newline>---\<newline>body'', None)"
    by (simp add: import_markdown_def sample_load_def delimiter_def ascii_def strip_def
        isspace_def numeral_2_eq_2)
  have 3: "import_markdown sample_load (Some (ascii '' plain text\<newline>''))
     = Inr (ascii ''plain text'', None)"
    by (simp add: import_markdown_def sample_load_def delimiter_def ascii_def strip_def
        isspace_def)
  from 1 2 3 import_body_stripped [OF 1] import_body_stripped [OF 2] import_body_stripped [OF 3]
  show ?thesis by simp
qed

lemma strip_length: "length (strip s) \<le> length s"
proof -
  have "length (strip s) \<le> length (dropWhile isspace s)"
    unfolding strip_def using length_dropWhile_le [of isspace "rev (dropWhile isspace s)"] by simp
  also have "\<dots> \<le> length s" by (rule length_dropWhile_le)
  finally show ?thesis .
qed

text \<open>
  C3. For a document \<open>--- fm --- rest\<close> in which \<open>fm\<close> runs up to the second
  delimiter and fails to parse, both importers return absent metadata and exactly the
  body \<open>strip (fm + '---' + rest)\<close>: the opening delimiter is not in it, so the body is
  at least three characters shorter than the document and never equal to it, although
  the comments of both importers say that the complete content is returned. On the
  document \<open>---[bad---body\<close>, which has no white space to strip, the body is
  \<open>[bad---body\<close>.
\<close>

theorem parse_failure_loses_delimiter:
  assumes "find_sub delimiter (fm @ ascii ''--'') = None" and "safe_load fm = None"
  shows "import_markdown safe_load (Some (delimiter @ fm @ delimiter @ rest))
           = Inr (strip (fm @ delimiter @ rest), None)
       \<and> editor_import safe_load (delimiter @ fm @ delimiter @ rest)
           = Some (strip (fm @ delimiter @ rest), None)
       \<and> length (strip (fm @ delimiter @ rest)) + 3 \<le> length (delimiter @ fm @ delimiter @ rest)
       \<and> strip (fm @ delimiter @ rest) \<noteq> delimiter @ fm @ delimiter @ rest"
proof -
  have l: "length (strip (fm @ delimiter @ rest)) + 3 \<le> length (delimiter @ fm @ delimiter @ rest)"
    using strip_length [of "fm @ delimiter @ rest"] by (simp add: delimiter_def ascii_def)
  then have "length (strip (fm @ delimiter @ rest)) \<noteq> length (delimiter @ fm @ delimiter @ rest)"
    by linarith
  then have n: "strip (fm @ delimiter @ rest) \<noteq> delimiter @ fm @ delimiter @ rest" by metis
  from import_parse_failure [where fm = fm and safe_load = safe_load and rest = rest] assms l n
  show ?thesis by simp
qed

theorem parse_failure_loses_delimiter_witness:
  "find_sub delimiter (ascii ''[bad'' @ ascii ''--'') = None
   \<and> sample_load (ascii ''[bad'') = None
   \<and> import_markdown sample_load (Some (ascii ''---[bad---body'')) = Inr (ascii ''[bad---body'', None)
   \<and> editor_import sample_load (ascii ''---[bad---body'') = Some (ascii ''[bad---body'', None)"
proof -
  have a: "find_sub delimiter (ascii ''[bad'' @ ascii ''--'') = None"
    by (simp add: delimiter_def ascii_def)
  have b: "sample_load (ascii ''[bad'') = None"
    by (simp add: sample_load_def ascii_def)
  have c: "delimiter @ ascii ''[bad'' @ delimiter @ ascii ''body'' = ascii ''---[bad---body''"
    by (simp add: delimiter_def ascii_def)
  have d: "strip (ascii ''[bad'' @ delimiter @ ascii ''body'') = ascii ''[bad---body''"
    by (simp add: delimiter_def ascii_def strip_def isspace_def)
  from a b parse_failure_loses_delimiter [where fm = "ascii ''[bad''"
      and safe_load = sample_load and rest = "ascii ''body''"]
  show ?thesis unfolding c d by blast
qed

lemma universal_newlines_Cons:
  "c \<noteq> 13 \<Longrightarrow> universal_newlines (c # cs) = c # universal_newlines cs"
  by (cases cs) simp_all

lemma universal_newlines_plain:
  "13 \<notin> set p \<Longrightarrow> universal_newlines (p @ x) = p @ universal_newlines x"
  by (induction p) (simp_all add: universal_newlines_Cons)

lemma universal_newlines_append:
  "d \<noteq> 10 \<Longrightarrow> universal_newlines (a @ d # b) = universal_newlines a @ universal_newlines (d # b)"
  by (induction a rule: universal_newlines.induct) (auto simp: universal_newlines_Cons)

lemma universal_newlines_id: "13 \<notin> set s \<Longrightarrow> universal_newlines s = s"
  using universal_newlines_plain [of s "[]"] by simp

lemma read_index_md:
  "read_text (index_md y c) = index_md (universal_newlines y) (universal_newlines c)"
proof -
  have 1: "13 \<notin> set (ascii ''---\<newline>'')" "13 \<notin> set (ascii ''---\<newline>\<newline>'')"
    by (simp_all add: ascii_def)
  have "universal_newlines (y @ ascii ''---\<newline>\<newline>'' @ c)
      = universal_newlines y @ universal_newlines (ascii ''---\<newline>\<newline>'' @ c)"
    using universal_newlines_append [of 45 y "ascii ''--\<newline>\<newline>'' @ c"]
    by (simp add: ascii_def)
  then show ?thesis
    by (simp only: read_text_def index_md_def universal_newlines_plain [OF 1(1)]
        universal_newlines_plain [OF 1(2)])
qed

text \<open>
  C2, as stated, fails: for a body that ends with a newline (and does not start with the
  delimiter), with metadata that round-trips through YAML, import after save returns the
  body without its final newline.
\<close>

theorem round_trip_strips_body:
  "save_blog sample_dump (\<lambda>_. False) True (ascii ''/blog'') (ascii ''post'')
       (ascii ''Body\<newline>'') hi_meta []
     = Inr (ascii ''/blog/post'', ascii ''---\<newline>title: Hi\<newline>---\<newline>\<newline>Body\<newline>'')
   \<and> read_text (ascii ''---\<newline>title: Hi\<newline>---\<newline>\<newline>Body\<newline>'')
     = ascii ''---\<newline>title: Hi\<newline>---\<newline>\<newline>Body\<newline>''
   \<and> import_markdown sample_load (Some (ascii ''---\<newline>title: Hi\<newline>---\<newline>\<newline>Body\<newline>''))
     = Inr (ascii ''Body'', Some hi_meta)
   \<and> ascii ''Body'' \<noteq> ascii ''Body\<newline>''
   \<and> \<not> prefix delimiter (ascii ''Body\<newline>'')"
  by (simp add: save_blog_def generate_frontmatter_def sample_dump_def index_md_def
      rewrite_images_def path_join_def os_sep_def suffix_def write_text_def read_text_def
      utf8_encodable_def is_surrogate_def
      import_markdown_def sample_load_def delimiter_def ascii_def strip_def
      isspace_def numeral_2_eq_2)

text \<open>
  C2, amended. Let the YAML text \<open>y\<close> of the metadata \<open>m\<close>, as it is read back, load
  to \<open>m\<close> (after the newline that follows the opening delimiter) and let \<open>---\<close> not
  occur in it, nor across its end followed by \<open>--\<close>. Then for every body \<open>b\<close> and
  every table of images for which \<open>save_blog\<close> can encode what it writes, importing the
  file returns the metadata \<open>m\<close> and the body as \<open>save_blog\<close> wrote it (image paths
  rewritten), with \<open>\r\n\<close> and \<open>\r\<close> read as \<open>\n\<close> and the white space at its two
  ends stripped. It returns \<open>b\<close> itself when \<open>b\<close> has no white space at its ends, no
  carriage return and no image path that is rewritten.
\<close>

theorem frontmatter_round_trip:
  assumes "dump m = Some y"
    and "safe_load (ascii ''\<newline>'' @ universal_newlines y) = Some (Some m)"
    and "find_sub delimiter (ascii ''\<newline>'' @ universal_newlines y @ ascii ''--'') = None"
    and "save_path \<noteq> []"
    and "utf8_encodable (index_md y (rewrite_images exists images b))"
  shows "\<exists>folder txt.
           save_blog dump exists True save_path folder_name b m images = Inr (folder, txt)
           \<and> import_markdown safe_load (Some (read_text txt))
               = Inr (strip (universal_newlines (rewrite_images exists images b)), Some m)
           \<and> (no_space_at_ends b \<and> 13 \<notin> set b \<and> rewrite_images exists images b = b
                \<longrightarrow> import_markdown safe_load (Some (read_text txt)) = Inr (b, Some m))"
proof -
  let ?c = "rewrite_images exists images b"
  have s: "save_blog dump exists True save_path folder_name b m images
      = Inr (path_join save_path folder_name, index_md y ?c)"
    using assms(1,4,5) by (simp add: save_blog_def generate_frontmatter_def write_text_def)
  have r: "read_text (index_md y ?c)
      = delimiter @ (ascii ''\<newline>'' @ universal_newlines y) @ delimiter
          @ (ascii ''\<newline>\<newline>'' @ universal_newlines ?c)"
    by (subst read_index_md) (rule index_md_shape)
  have "import_markdown safe_load (Some (read_text (index_md y ?c)))
      = Inr (strip (ascii ''\<newline>\<newline>'' @ universal_newlines ?c), Some m)"
    unfolding r
    using assms(2,3)
      import_parse_success [where fm = "ascii ''\<newline>'' @ universal_newlines y"
        and safe_load = safe_load
        and m = "Some m" and rest = "ascii ''\<newline>\<newline>'' @ universal_newlines ?c"]
    by simp
  then have i: "import_markdown safe_load (Some (read_text (index_md y ?c)))
      = Inr (strip (universal_newlines ?c), Some m)"
    by (simp only: strip_newlines)
  from s i show ?thesis by (auto simp: strip_id universal_newlines_id)
qed

theorem frontmatter_round_trip_witness:
  "(\<exists>folder txt.
      save_blog sample_dump (\<lambda>_. False) True (ascii ''/blog'') (ascii ''post'')
        (ascii ''Body text'') hi_meta [] = Inr (folder, txt)
      \<and> import_markdown sample_load (Some (read_text txt)) = Inr (ascii ''Body text'', Some hi_meta))
   \<and> (\<exists>folder txt.
      save_blog sample_dump (\<lambda>_. True) True (ascii ''/blog'') (ascii ''post'')
        (ascii ''see p'' @ [13, 10]) hi_meta [(ascii ''p'', ascii ''q'')] = Inr (folder, txt)
      \<and> import_markdown sample_load (Some (read_text txt)) = Inr (ascii ''see ./q'', Some hi_meta))"
proof -
  have a: "sample_dump hi_meta = Some (ascii ''title: Hi\<newline>'')"
    by (simp add: sample_dump_def)
  have b: "sample_load (ascii ''\<newline>'' @ universal_newlines (ascii ''title: Hi\<newline>'')) = Some (Some hi_meta)"
    by (simp add: sample_load_def ascii_def)
  have c: "find_sub delimiter
      (ascii ''\<newline>'' @ universal_newlines (ascii ''title: Hi\<newline>'') @ ascii ''--'') = None"
    by (simp add: delimiter_def ascii_def)
  have d: "ascii ''/blog'' \<noteq> []" by (simp add: ascii_def)
  have r1: "rewrite_images (\<lambda>_. False) [] (ascii ''Body text'') = ascii ''Body text''"
    by (simp add: rewrite_images_def)
  have e1: "utf8_encodable (index_md (ascii ''title: Hi\<newline>'')
      (rewrite_images (\<lambda>_. False) [] (ascii ''Body text'')))"
    unfolding r1 by (simp add: utf8_encodable_def is_surrogate_def index_md_def ascii_def)
  have f1: "no_space_at_ends (ascii ''Body text'') \<and> 13 \<notin> set (ascii ''Body text'')"
    by (simp add: no_space_at_ends_def ascii_def isspace_def)
  have r2: "rewrite_images (\<lambda>_. True) [(ascii ''p'', ascii ''q'')] (ascii ''see p'' @ [13, 10])
      = ascii ''see ./q'' @ [13, 10]"
    by (simp add: rewrite_images_def replace_def ascii_def)
  have e2: "utf8_encodable (index_md (ascii ''title: Hi\<newline>'')
      (rewrite_images (\<lambda>_. True) [(ascii ''p'', ascii ''q'')] (ascii ''see p'' @ [13, 10])))"
    unfolding r2 by (simp add: utf8_encodable_def is_surrogate_def index_md_def ascii_def)
  have s2: "strip (universal_newlines (ascii ''see ./q'' @ [13, 10])) = ascii ''see ./q''"
    by (simp add: strip_def isspace_def ascii_def)
  from frontmatter_round_trip [where dump = sample_dump and m = hi_meta
      and y = "ascii ''title: Hi\<newline>''" and safe_load = sample_load
      and save_path = "ascii ''/blog''" and exists = "\<lambda>_. False" and images = "[]"
      and folder_name = "ascii ''post''" and b = "ascii ''Body text''", OF a b c d e1] f1 r1
  have 1: "\<exists>folder txt.
      save_blog sample_dump (\<lambda>_. False) True (ascii ''/blog'') (ascii ''post'')
        (ascii ''Body text'') hi_meta [] = Inr (folder, txt)
      \<and> import_markdown sample_load (Some (read_text txt)) = Inr (ascii ''Body text'', Some hi_meta)"
    by blast
  from frontmatter_round_trip [where dump = sample_dump and m = hi_meta
      and y = "ascii ''title: Hi\<newline>''" and safe_load = sample_load
      and save_path = "ascii ''/blog''" and exists = "\<lambda>_. True"
      and images = "[(ascii ''p'', ascii ''q'')]"
      and folder_name = "ascii ''post''" and b = "ascii ''see p'' @ [13, 10]", OF a b c d e2]
  have 2: "\<exists>folder txt.
      save_blog sample_dump (\<lambda>_. True) True (ascii ''/blog'') (ascii ''post'')
        (ascii ''see p'' @ [13, 10]) hi_meta [(ascii ''p'', ascii ''q'')] = Inr (folder, txt)
      \<and> import_markdown sample_load (Some (read_text txt)) = Inr (ascii ''see ./q'', Some hi_meta)"
    unfolding r2 s2 by blast
  from 1 2 show ?thesis by (rule conjI)
qed

section \<open>Cache eviction\<close>

lemma mset_sort_desc: "mset (sort_desc xs) = mset xs"
  by (simp add: sort_desc_def)

lemma set_sort_desc: "set (sort_desc xs) = set xs"
  by (simp add: sort_desc_def)

lemma length_sort_desc: "length (sort_desc xs) = length xs"
  by (simp add: sort_desc_def)

lemma sorted_sort_desc: "sorted_wrt (\<lambda>a b. snd b \<le> snd a) (sort_desc xs)"
proof -
  have "sorted (map snd (sort_key snd (rev xs)))" by (rule sorted_sort_key)
  then have "sorted_wrt (\<lambda>a b. snd a \<le> snd b) (sort_key snd (rev xs))"
    by (simp add: sorted_wrt_map)
  then show ?thesis
    unfolding sort_desc_def by (simp add: sorted_wrt_rev)
qed

lemma map_fst_list_files: "map fst (list_files dir) = map fst dir"
  by (induction dir) (auto simp: list_files_def)

lemma doomed_fine:
  "doomed (io_fine now) dir = map fst (drop cache_size (sort_desc (list_files dir)))"
  by (simp add: doomed_def io_fine_def)

lemma distinct_ranked:
  assumes "distinct (map fst dir)"
  shows "distinct (map fst (sort_desc (list_files dir)))"
proof -
  have "mset (map fst (sort_desc (list_files dir))) = mset (map fst dir)"
    by (simp add: mset_sort_desc map_fst_list_files [symmetric])
  then show ?thesis using assms by (metis mset_eq_imp_distinct_iff)
qed

lemma set_ranked: "set (map fst (sort_desc (list_files dir))) = set (map fst dir)"
  by (metis set_map set_sort_desc map_fst_list_files)

lemma keys_filter_out:
  "set (map fst (filter (\<lambda>(k, f). k \<notin> S) dir)) = set (map fst dir) - S"
  by (induction dir) auto

lemma listdir_fine: "listdir_ok (io_fine now)"
  by (simp add: io_fine_def)

lemma kept_keys:
  assumes "distinct (map fst dir)"
  shows "set (map fst (cleanup_old_cache (io_fine now) dir))
           = set (map fst (take cache_size (sort_desc (list_files dir))))"
proof -
  let ?L = "map fst (sort_desc (list_files dir))"
  have split: "?L = take cache_size ?L @ drop cache_size ?L" by simp
  have d: "set (take cache_size ?L) \<inter> set (drop cache_size ?L) = {}"
    using distinct_ranked [OF assms] by (metis distinct_append split)
  have u: "set (map fst dir) = set (take cache_size ?L) \<union> set (drop cache_size ?L)"
    by (metis set_ranked set_append split)
  have "set (map fst (cleanup_old_cache (io_fine now) dir))
      = set (map fst dir) - set (drop cache_size ?L)"
    by (simp only: cleanup_old_cache_def doomed_fine listdir_fine if_True keys_filter_out drop_map)
  with d u show ?thesis by (auto simp: take_map)
qed

lemma distinct_cleanup:
  "distinct (map fst dir) \<Longrightarrow> distinct (map fst (cleanup_old_cache io dir))"
  by (simp add: cleanup_old_cache_def distinct_map_filter)

lemma length_cleanup:
  assumes "distinct (map fst dir)"
  shows "length (cleanup_old_cache (io_fine now) dir) = min cache_size (length dir)"
proof -
  let ?L = "sort_desc (list_files dir)"
  have "length (cleanup_old_cache (io_fine now) dir)
      = card (set (map fst (cleanup_old_cache (io_fine now) dir)))"
    using distinct_cleanup [OF assms, of "io_fine now"] by (metis distinct_card length_map)
  also have "\<dots> = card (set (map fst (take cache_size ?L)))"
    by (simp only: kept_keys [OF assms])
  also have "\<dots> = length (map fst (take cache_size ?L))"
    using distinct_ranked [OF assms] by (metis distinct_card distinct_take take_map)
  also have "\<dots> = min cache_size (length dir)"
    by (simp add: length_sort_desc list_files_def min.commute)
  finally show ?thesis .
qed

lemma mtime_unique:
  assumes "distinct (map fst dir)" "(k, m) \<in> set (list_files dir)" "(k, f) \<in> set dir"
  shows "m = mtime f"
proof -
  have "(k, mtime f) \<in> set (list_files dir)" using assms(3) by (force simp: list_files_def)
  moreover have "distinct (map fst (list_files dir))" using assms(1) by (simp add: map_fst_list_files)
  ultimately show ?thesis using assms(2) by (metis eq_key_imp_eq_value)
qed

lemma kept_newer:
  assumes "distinct (map fst dir)"
    and "(k1, f1) \<in> set (cleanup_old_cache (io_fine now) dir)"
    and "(k2, f2) \<in> set dir" and "(k2, f2) \<notin> set (cleanup_old_cache (io_fine now) dir)"
  shows "mtime f2 \<le> mtime f1"
proof -
  let ?L = "sort_desc (list_files dir)"
  have "k1 \<in> set (map fst (cleanup_old_cache (io_fine now) dir))"
    using assms(2) by force
  then have k1: "k1 \<in> set (map fst (take cache_size ?L))"
    by (simp only: kept_keys [OF assms(1)])
  have "k2 \<in> set (doomed (io_fine now) dir)"
    using assms(3,4) by (auto simp: cleanup_old_cache_def listdir_fine)
  then have k2: "k2 \<in> set (map fst (drop cache_size ?L))" by (simp add: doomed_fine)
  from k1 obtain m1 where a: "(k1, m1) \<in> set (take cache_size ?L)" by auto
  from k2 obtain m2 where b: "(k2, m2) \<in> set (drop cache_size ?L)" by auto
  have "sorted_wrt (\<lambda>a b. snd b \<le> snd a) (take cache_size ?L @ drop cache_size ?L)"
    using sorted_sort_desc by simp
  then have "\<forall>x\<in>set (take cache_size ?L). \<forall>y\<in>set (drop cache_size ?L). snd y \<le> snd x"
    unfolding sorted_wrt_append by blast
  with a b have le: "m2 \<le> m1" by fastforce
  have "(k1, f1) \<in> set dir" using assms(2) by (auto simp: cleanup_old_cache_def split: if_splits)
  moreover have "(k1, m1) \<in> set (list_files dir)" using a by (metis in_set_takeD set_sort_desc)
  ultimately have "m1 = mtime f1" using mtime_unique [OF assms(1)] by blast
  moreover have "(k2, m2) \<in> set (list_files dir)" using b by (metis in_set_dropD set_sort_desc)
  then have "m2 = mtime f2" using mtime_unique [OF assms(1)] assms(3) by blast
  ultimately show ?thesis using le by simp
qed

lemma save_fine:
  "utf8_encodable t \<Longrightarrow> save_to_cache h (io_fine now) dir t =
     (cleanup_old_cache (io_fine now)
        (AList.update (h t)
           \<lparr>mtime = now,
            payload = Some \<lparr>chunks = split_chunks chunk_size t, timestamp = now\<rparr>\<rparr> dir),
      Some (h t))"
  by (simp add: save_to_cache_def get_cache_key_def io_fine_def)

lemma cleanup_within: "set (cleanup_old_cache io dir) \<subseteq> set dir"
  by (auto simp: cleanup_old_cache_def)

lemma cleanup_small:
  assumes "length dir \<le> cache_size"
  shows "cleanup_old_cache io dir = dir"
proof -
  have "drop cache_size (sort_desc (list_files dir)) = []"
    using assms by (simp add: length_sort_desc list_files_def)
  then show ?thesis by (simp add: cleanup_old_cache_def doomed_def)
qed

lemma distinct_save:
  "distinct (map fst dir) \<Longrightarrow> distinct (map fst (fst (save_to_cache h io dir t)))"
  by (auto simp: save_to_cache_def distinct_cleanup distinct_update
      split: option.splits)

lemma length_save:
  assumes "distinct (map fst dir)" "utf8_encodable t"
  shows "length (fst (save_to_cache h (io_fine now) dir t))
       = min cache_size (length (AList.update (h t)
           \<lparr>mtime = now,
            payload = Some \<lparr>chunks = split_chunks chunk_size t, timestamp = now\<rparr>\<rparr> dir))"
  using assms by (simp add: save_fine length_cleanup distinct_update)

lemma length_update_ge: "length dir \<le> length (AList.update k v dir)"
  by (induction dir) auto

lemma save_step:
  assumes "distinct (map fst dir)" "utf8_encodable t"
  shows "length (fst (save_to_cache h (io_fine now) dir t)) = cache_size
       \<or> insert (h t) (fst ` set dir) \<subseteq> fst ` set (fst (save_to_cache h (io_fine now) dir t))"
proof -
  let ?W = "AList.update (h t)
           \<lparr>mtime = now,
            payload = Some \<lparr>chunks = split_chunks chunk_size t, timestamp = now\<rparr>\<rparr> dir"
  show ?thesis
  proof (cases "length ?W \<le> cache_size")
    case True
    then have "fst (save_to_cache h (io_fine now) dir t) = ?W"
      by (simp add: save_fine [OF assms(2)] cleanup_small)
    then show ?thesis by (simp add: dom_update)
  next
    case False
    then show ?thesis using length_save [OF assms, of h now] by simp
  qed
qed

lemma save_full:
  assumes "distinct (map fst dir)" "utf8_encodable t" "length dir = cache_size"
  shows "length (fst (save_to_cache h (io_fine now) dir t)) = cache_size"
  using length_save [OF assms(1,2), of h now] length_update_ge [of dir "h t"] assms(3)
  by (simp add: min_def)

lemma save_texts_Cons:
  "save_texts h dir ((now, t) # saves)
     = save_texts h (fst (save_to_cache h (io_fine now) dir t)) saves"
  by (simp add: save_texts_def)

lemma save_texts_full:
  assumes "\<forall>(now, t)\<in>set saves. utf8_encodable t"
  shows "distinct (map fst dir) \<Longrightarrow> length dir = cache_size
     \<Longrightarrow> length (save_texts h dir saves) = cache_size"
  using assms
proof (induction saves arbitrary: dir)
  case Nil
  then show ?case by (simp add: save_texts_def)
next
  case (Cons x saves)
  obtain now t where x: "x = (now, t)" by (cases x)
  have u: "utf8_encodable t" using Cons.prems(3) x by simp
  show ?case
    unfolding x save_texts_Cons
    using Cons.prems(3)
    by (intro Cons.IH distinct_save Cons.prems(1) save_full u Cons.prems(2)) simp
qed

lemma save_texts_inv:
  assumes "\<forall>(now, t)\<in>set saves. utf8_encodable t"
  shows "distinct (map fst dir) \<Longrightarrow>
     distinct (map fst (save_texts h dir saves)) \<and>
     (length (save_texts h dir saves) = cache_size
        \<or> h ` snd ` set saves \<union> fst ` set dir \<subseteq> fst ` set (save_texts h dir saves))"
  using assms
proof (induction saves arbitrary: dir)
  case Nil
  then show ?case by (simp add: save_texts_def)
next
  case (Cons x saves)
  obtain now t where x: "x = (now, t)" by (cases x)
  let ?d = "fst (save_to_cache h (io_fine now) dir t)"
  have u: "utf8_encodable t" using Cons.prems(2) x by simp
  have rest: "\<forall>(now, t)\<in>set saves. utf8_encodable t" using Cons.prems(2) by simp
  have d: "distinct (map fst ?d)" using Cons.prems(1) by (rule distinct_save)
  note ih = Cons.IH [OF d rest]
  from save_step [OF Cons.prems(1) u, of h now]
  show ?case
  proof
    assume "length ?d = cache_size"
    then have "length (save_texts h ?d saves) = cache_size"
      using save_texts_full [OF rest d] by simp
    then show ?thesis using ih by (simp add: x save_texts_Cons)
  next
    assume a: "insert (h t) (fst ` set dir) \<subseteq> fst ` set ?d"
    define A where "A = h ` snd ` set saves"
    define B where "B = fst ` set ?d"
    define C where "C = fst ` set (save_texts h ?d saves)"
    define D where "D = fst ` set dir"
    have s: "h ` snd ` set (x # saves) \<union> fst ` set dir = A \<union> insert (h t) D"
      by (simp add: x A_def D_def)
    have a': "insert (h t) D \<subseteq> B" using a by (simp only: B_def D_def)
    have ih1: "distinct (map fst (save_texts h ?d saves))" using ih by (rule conjunct1)
    have ih2: "length (save_texts h ?d saves) = cache_size \<or> A \<union> B \<subseteq> C"
      using ih by (simp only: A_def B_def C_def)
    have "length (save_texts h ?d saves) = cache_size \<or> A \<union> insert (h t) D \<subseteq> C"
      using ih2 a' by blast
    then have "length (save_texts h ?d saves) = cache_size
        \<or> h ` snd ` set (x # saves) \<union> fst ` set dir \<subseteq> fst ` set (save_texts h ?d saves)"
      by (simp only: s C_def)
    with ih1 show ?thesis by (simp only: x save_texts_Cons)
  qed
qed

lemma save_texts_bounded:
  assumes "\<forall>(now, t)\<in>set saves. utf8_encodable t" "distinct (map fst dir)" "saves \<noteq> []"
  shows "length (save_texts h dir saves) \<le> cache_size"
proof -
  from assms(3) obtain ys now t where s: "saves = ys @ [(now, t)]"
    by (metis rev_exhaust surj_pair)
  have u: "utf8_encodable t" using assms(1) s by simp
  have r: "\<forall>(now, t)\<in>set ys. utf8_encodable t" using assms(1) s by simp
  have d: "distinct (map fst (save_texts h dir ys))"
    using save_texts_inv [OF r assms(2)] by simp
  have "save_texts h dir saves = fst (save_to_cache h (io_fine now) (save_texts h dir ys) t)"
    by (simp add: s save_texts_def)
  then show ?thesis using length_save [OF d u, of h now] by simp
qed

lemma save_texts_exact:
  assumes "\<forall>(now, t)\<in>set saves. utf8_encodable t" "distinct (map fst dir)"
    and "distinct (map (\<lambda>(now, t). h t) saves)" "cache_size \<le> length saves"
  shows "length (save_texts h dir saves) = cache_size"
proof -
  let ?r = "save_texts h dir saves"
  have ne: "saves \<noteq> []" using assms(4) by (auto simp: cache_size_def)
  from save_texts_inv [OF assms(1,2), of h]
  have d: "distinct (map fst ?r)"
    and c: "length ?r = cache_size \<or> h ` snd ` set saves \<subseteq> fst ` set ?r" by auto
  from c show ?thesis
  proof
    assume "h ` snd ` set saves \<subseteq> fst ` set ?r"
    then have "card (h ` snd ` set saves) \<le> card (fst ` set ?r)"
      by (intro card_mono) auto
    moreover have "card (fst ` set ?r) = length ?r"
      using d by (metis distinct_card length_map set_map)
    moreover have "h ` snd ` set saves = set (map (\<lambda>(now, t). h t) saves)" by force
    then have "card (h ` snd ` set saves) = length saves"
      using assms(3) by (metis distinct_card length_map)
    ultimately show ?thesis
      using assms(4) save_texts_bounded [OF assms(1,2) ne, of h] by simp
  qed
qed

text \<open>
  C4. In an environment whose calls all succeed, and a directory whose file names are
  distinct, a \<open>save_to_cache\<close> of an encodable text leaves at most \<open>cache_size\<close> = 10
  entries, namely \<open>min 10 n\<close> of the \<open>n\<close> entries present after the write; the entries
  kept are entries of that directory, their names are those of the first ten in the
  ranking by descending modification time (a stable sort), and every entry kept was
  modified at least as recently as every entry removed. After saving ten or more texts
  with pairwise distinct keys, one after the other and whatever the clock reads at each
  save, exactly ten entries remain.
\<close>

theorem cache_keeps_most_recent:
  assumes "distinct (map fst dir)" and "utf8_encodable t"
    and "\<forall>(now, t)\<in>set saves. utf8_encodable t"
    and "distinct (map (\<lambda>(now, t). h t) saves)" and "cache_size \<le> length saves"
  shows "let written = AList.update (h t)
               \<lparr>mtime = now,
                payload = Some \<lparr>chunks = split_chunks chunk_size t, timestamp = now\<rparr>\<rparr> dir;
             kept = fst (save_to_cache h (io_fine now) dir t)
         in length kept \<le> cache_size
          \<and> length kept = min cache_size (length written)
          \<and> set kept \<subseteq> set written
          \<and> fst ` set kept = fst ` set (take cache_size (sort_desc (list_files written)))
          \<and> (\<forall>(k1, f1)\<in>set kept. \<forall>(k2, f2)\<in>set written - set kept. mtime f2 \<le> mtime f1)
          \<and> length (save_texts h dir saves) = cache_size"
proof -
  let ?W = "AList.update (h t)
               \<lparr>mtime = now,
                payload = Some \<lparr>chunks = split_chunks chunk_size t, timestamp = now\<rparr>\<rparr> dir"
  let ?K = "fst (save_to_cache h (io_fine now) dir t)"
  have K: "?K = cleanup_old_cache (io_fine now) ?W" by (simp add: save_fine [OF assms(2)])
  have dW: "distinct (map fst ?W)" using assms(1) by (simp add: distinct_update)
  have 1: "length ?K = min cache_size (length ?W)" unfolding K by (rule length_cleanup [OF dW])
  have 2: "set ?K \<subseteq> set ?W" unfolding K by (rule cleanup_within)
  have 3: "fst ` set ?K = fst ` set (take cache_size (sort_desc (list_files ?W)))"
    unfolding K using kept_keys [OF dW, of now] by (simp only: set_map)
  have 4: "\<forall>(k1, f1)\<in>set ?K. \<forall>(k2, f2)\<in>set ?W - set ?K. mtime f2 \<le> mtime f1"
    unfolding K using kept_newer [OF dW] by blast
  have 5: "length (save_texts h dir saves) = cache_size"
    by (rule save_texts_exact [OF assms(3) assms(1) assms(4) assms(5)])
  from 1 have 0: "length ?K \<le> cache_size" by simp
  from 0 1 2 3 4 5 show ?thesis unfolding Let_def by (intro conjI)
qed

theorem cache_keeps_most_recent_witness:
  "length (save_texts (\<lambda>t. t) []
      [(1, ascii ''a''), (2, ascii ''b''), (3, ascii ''c''), (4, ascii ''d''), (5, ascii ''e''),
       (6, ascii ''f''), (7, ascii ''g''), (8, ascii ''h''), (9, ascii ''i''), (10, ascii ''j''),
       (11, ascii ''k''), (12, ascii ''l''), (13, ascii ''m''), (14, ascii ''n''),
       (15, ascii ''o'')]) = cache_size
   \<and> length (fst (save_to_cache (\<lambda>t. t) (io_fine 1) [] (ascii ''a''))) \<le> cache_size"
  using cache_keeps_most_recent [of "[]" "ascii ''a''"
      "[(1, ascii ''a''), (2, ascii ''b''), (3, ascii ''c''), (4, ascii ''d''), (5, ascii ''e''),
       (6, ascii ''f''), (7, ascii ''g''), (8, ascii ''h''), (9, ascii ''i''), (10, ascii ''j''),
       (11, ascii ''k''), (12, ascii ''l''), (13, ascii ''m''), (14, ascii ''n''),
       (15, ascii ''o'')]" "\<lambda>t. t" 1]
  by (simp add: Let_def utf8_encodable_def is_surrogate_def cache_size_def ascii_def)

section \<open>Unique file names\<close>

lemma splitext_join: "fst (splitext p) @ snd (splitext p) = p"
  by (simp add: splitext_def Let_def)

lemma candidate_Suc:
  "candidate filename (Suc k)
     = fst (splitext filename) @ ascii ''_'' @ str_of_nat (Suc k) @ snd (splitext filename)"
  by (simp add: candidate_def)

lemma unique_loop_first_free:
  assumes "\<not> exists (path_join folder_path (candidate filename n))"
    and "\<forall>j<n. exists (path_join folder_path (candidate filename j))"
  shows "k \<le> n \<Longrightarrow>
     unique_loop exists folder_path (fst (splitext filename)) (snd (splitext filename)) (Suc k)
       (candidate filename k) = Some (candidate filename n)"
proof (induction "n - k" arbitrary: k)
  case 0
  then have "k = n" by simp
  with assms(1) show ?case by (subst unique_loop.simps) simp
next
  case (Suc d)
  then have lt: "k < n" and d: "d = n - Suc k" and le: "Suc k \<le> n" by simp_all
  from lt assms(2) have e: "exists (path_join folder_path (candidate filename k))" by simp
  have "unique_loop exists folder_path (fst (splitext filename)) (snd (splitext filename)) (Suc k)
       (candidate filename k)
     = unique_loop exists folder_path (fst (splitext filename)) (snd (splitext filename)) (Suc (Suc k))
       (candidate filename (Suc k))"
    using e by (subst unique_loop.simps) (simp add: candidate_Suc)
  also have "\<dots> = Some (candidate filename n)" by (rule Suc.hyps(1) [OF d le])
  finally show ?case .
qed

lemma ensure_unique_first_free:
  assumes "\<not> exists (path_join folder_path (candidate filename n))"
    and "\<forall>j<n. exists (path_join folder_path (candidate filename j))"
  shows "ensure_unique_filename exists folder_path filename = Some (candidate filename n)"
proof -
  have "ensure_unique_filename exists folder_path filename
      = unique_loop exists folder_path (fst (splitext filename)) (snd (splitext filename)) (Suc 0)
          (candidate filename 0)"
    by (simp add: ensure_unique_filename_def candidate_def split_beta)
  then show ?thesis using unique_loop_first_free [OF assms, of 0] by simp
qed

lemma candidate_suffix: "suffix (snd (splitext filename)) (candidate filename k)"
proof (cases k)
  case 0
  have "suffix (snd (splitext filename)) (fst (splitext filename) @ snd (splitext filename))"
    by (rule suffixI) simp
  then show ?thesis using 0 by (simp add: candidate_def splitext_join)
next
  case (Suc j)
  show ?thesis unfolding Suc candidate_Suc
    by (rule suffixI [of _ "fst (splitext filename) @ ascii ''_'' @ str_of_nat (Suc j)"]) simp
qed

lemma nat_of_str_of_nat: "foldl (\<lambda>a c. 10 * a + (c - 48)) 0 (str_of_nat n) = n"
proof (induction n rule: str_of_nat.induct)
  case (1 n)
  show ?case
  proof (cases "n < 10")
    case True
    then show ?thesis by (subst str_of_nat.simps) simp
  next
    case False
    with 1 have "foldl (\<lambda>a c. 10 * a + (c - 48)) 0 (str_of_nat (n div 10)) = n div 10" by simp
    with False show ?thesis by (subst str_of_nat.simps) simp
  qed
qed

lemma str_of_nat_inj: "str_of_nat m = str_of_nat n \<Longrightarrow> m = n"
  by (metis nat_of_str_of_nat)

lemma candidate_inj:
  assumes "candidate filename (Suc j) = candidate filename (Suc k)"
  shows "j = k"
proof -
  from assms have "str_of_nat (Suc j) = str_of_nat (Suc k)"
    unfolding candidate_Suc by simp
  then show ?thesis using str_of_nat_inj by blast
qed

lemma path_join_candidate:
  "\<exists>P. \<forall>k. path_join folder_path (candidate filename (Suc k)) = P @ candidate filename (Suc k)"
proof -
  let ?name = "fst (splitext filename)"
  have c: "\<And>k. prefix os_sep (candidate filename (Suc k)) \<longleftrightarrow> prefix os_sep ?name"
    unfolding candidate_Suc by (cases ?name) (simp_all add: os_sep_def ascii_def)
  show ?thesis
  proof (cases "prefix os_sep ?name")
    case True
    then have "\<forall>k. path_join folder_path (candidate filename (Suc k)) = [] @ candidate filename (Suc k)"
      by (simp add: path_join_def c)
    then show ?thesis by blast
  next
    case False
    show ?thesis
    proof (cases "folder_path = [] \<or> suffix os_sep folder_path")
      case True
      with False have "\<forall>k. path_join folder_path (candidate filename (Suc k))
          = folder_path @ candidate filename (Suc k)"
        by (simp add: path_join_def c)
      then show ?thesis by blast
    next
      case f: False
      with False have "\<forall>k. path_join folder_path (candidate filename (Suc k))
          = (folder_path @ os_sep) @ candidate filename (Suc k)"
        by (simp add: path_join_def c)
      then show ?thesis by blast
    qed
  qed
qed

lemma free_candidate:
  assumes "finite {p. exists p}"
  shows "\<exists>k. \<not> exists (path_join folder_path (candidate filename k))"
proof (rule ccontr)
  assume "\<not> ?thesis"
  then have all: "\<And>k. exists (path_join folder_path (candidate filename k))" by blast
  obtain P where P: "\<And>k. path_join folder_path (candidate filename (Suc k))
      = P @ candidate filename (Suc k)"
    using path_join_candidate by blast
  let ?f = "\<lambda>k. path_join folder_path (candidate filename (Suc k))"
  have "inj ?f"
  proof (rule injI)
    fix j k assume "?f j = ?f k"
    then have "candidate filename (Suc j) = candidate filename (Suc k)" by (simp add: P)
    then show "j = k" by (rule candidate_inj)
  qed
  then have "infinite (range ?f)" using finite_imageD [of ?f UNIV] by auto
  moreover have "range ?f \<subseteq> {p. exists p}" using all by blast
  ultimately show False using assms by (metis finite_subset)
qed

text \<open>
  C10. In a file system with finitely many existing paths, \<open>ensure_unique_filename\<close>
  returns, for every folder path and file name: the loop ends, and its result is the first
  candidate that names no existing file in the folder, where candidate 0 is the file name
  itself and candidate \<open>k\<close>, for \<open>k\<close> from 1, is \<open>name_k.ext\<close> with \<open>(name, ext)\<close>
  the \<open>splitext\<close> of the file name. So the file name itself is returned exactly when it
  is free, every earlier candidate exists, and the result ends with the original
  extension.
\<close>

theorem unique_filename_first_free:
  assumes "finite {p. exists p}"
  shows "\<exists>n. ensure_unique_filename exists folder_path filename = Some (candidate filename n)
           \<and> \<not> exists (path_join folder_path (candidate filename n))
           \<and> (\<forall>j<n. exists (path_join folder_path (candidate filename j)))
           \<and> (n = 0 \<longleftrightarrow> \<not> exists (path_join folder_path filename))
           \<and> candidate filename 0 = filename
           \<and> (0 < n \<longrightarrow> candidate filename n
                 = fst (splitext filename) @ ascii ''_'' @ str_of_nat n @ snd (splitext filename))
           \<and> suffix (snd (splitext filename)) (candidate filename n)"
proof -
  let ?free = "\<lambda>k. \<not> exists (path_join folder_path (candidate filename k))"
  define n where "n = (LEAST k. ?free k)"
  from free_candidate [OF assms] obtain k where "?free k" by blast
  then have free: "?free n" unfolding n_def by (rule LeastI)
  have least: "\<forall>j<n. exists (path_join folder_path (candidate filename j))"
    unfolding n_def using not_less_Least by blast
  have c0: "candidate filename 0 = filename" by (simp add: candidate_def)
  have zero: "n = 0 \<longleftrightarrow> \<not> exists (path_join folder_path filename)"
  proof
    assume "n = 0"
    with free c0 show "\<not> exists (path_join folder_path filename)" by simp
  next
    assume "\<not> exists (path_join folder_path filename)"
    then have "?free 0" by (simp add: c0)
    with least show "n = 0" by (cases n) auto
  qed
  have pos: "0 < n \<longrightarrow> candidate filename n
      = fst (splitext filename) @ ascii ''_'' @ str_of_nat n @ snd (splitext filename)"
    by (simp add: candidate_def)
  from ensure_unique_first_free [OF free least] free least zero c0 pos
    candidate_suffix [of filename n]
  show ?thesis by blast
qed

theorem unique_filename_first_free_witness:
  "finite {p. p \<in> set [ascii ''/d/a.txt'', ascii ''/d/a_1.txt'']}
   \<and> (\<exists>n. ensure_unique_filename (\<lambda>p. p \<in> set [ascii ''/d/a.txt'', ascii ''/d/a_1.txt''])
               (ascii ''/d'') (ascii ''a.txt'') = Some (candidate (ascii ''a.txt'') n)
         \<and> \<not> candidate (ascii ''a.txt'') n \<in> set [ascii ''a.txt'', ascii ''a_1.txt''])
   \<and> ensure_unique_filename (\<lambda>p. p \<in> set [ascii ''/d/a.txt'', ascii ''/d/a_1.txt''])
         (ascii ''/d'') (ascii ''a.txt'') = Some (ascii ''a_2.txt'')"
proof -
  have v: "ensure_unique_filename (\<lambda>p. p \<in> set [ascii ''/d/a.txt'', ascii ''/d/a_1.txt''])
               (ascii ''/d'') (ascii ''a.txt'') = Some (ascii ''a_2.txt'')"
    by (simp add: ensure_unique_filename_def splitext_def rfind_def Let_def ascii_def
        unique_loop.simps path_join_def os_sep_def suffix_def str_of_nat.simps)
  have f: "finite {p. p \<in> set [ascii ''/d/a.txt'', ascii ''/d/a_1.txt'']}" by simp
  from unique_filename_first_free [of "\<lambda>p. p \<in> set [ascii ''/d/a.txt'', ascii ''/d/a_1.txt'']"
      "ascii ''/d''" "ascii ''a.txt''", OF f]
  obtain n where n: "ensure_unique_filename (\<lambda>p. p \<in> set [ascii ''/d/a.txt'', ascii ''/d/a_1.txt''])
               (ascii ''/d'') (ascii ''a.txt'') = Some (candidate (ascii ''a.txt'') n)"
    and free: "\<not> path_join (ascii ''/d'') (candidate (ascii ''a.txt'') n)
                 \<in> set [ascii ''/d/a.txt'', ascii ''/d/a_1.txt'']"
    by blast
  have "\<not> candidate (ascii ''a.txt'') n \<in> set [ascii ''a.txt'', ascii ''a_1.txt'']"
  proof
    assume "candidate (ascii ''a.txt'') n \<in> set [ascii ''a.txt'', ascii ''a_1.txt'']"
    then have "path_join (ascii ''/d'') (candidate (ascii ''a.txt'') n)
                 \<in> set [ascii ''/d/a.txt'', ascii ''/d/a_1.txt'']"
      by (auto simp: path_join_def os_sep_def ascii_def suffix_def)
    with free show False by simp
  qed
  with f n v show ?thesis by blast
qed

section \<open>Cache round trip\<close>

lemma update_other:
  "(k, f) \<in> set (AList.update k' v dir) \<Longrightarrow> k \<noteq> k' \<Longrightarrow> (k, f) \<in> set dir"
  by (induction dir) (auto split: if_splits)

lemma update_has: "(k, v) \<in> set (AList.update k v dir)"
  by (induction dir) auto

lemma fresh_entry_kept:
  assumes d: "distinct (map fst dir)"
    and few: "length (filter (\<lambda>(k, f). k \<noteq> key \<and> now \<le> mtime f) dir) < cache_size"
    and F: "mtime F = now"
  shows "key \<notin> set (doomed (io_fine now') (AList.update key F dir))"
proof
  define W where "W = AList.update key F dir"
  define L where "L = sort_desc (list_files W)"
  define A where "A = take cache_size L"
  define B where "B = drop cache_size L"
  define P where "P = (\<lambda>(k, f :: cache_file). k \<noteq> key \<and> now \<le> mtime f)"
  define G where "G = (\<lambda>(k :: key, f :: cache_file). (k, mtime f))"
  assume "key \<in> set (doomed (io_fine now') (AList.update key F dir))"
  then have "key \<in> set (map fst B)"
    by (simp only: doomed_fine W_def L_def B_def)
  then obtain m where m: "(key, m) \<in> set B" by auto
  have dW: "distinct (map fst W)" unfolding W_def using d by (simp add: distinct_update)
  have inW: "(key, F) \<in> set W" unfolding W_def by (rule update_has)
  have LAB: "L = A @ B" by (simp add: A_def B_def)
  have setL: "set L = set (list_files W)" unfolding L_def by (rule set_sort_desc)
  have setAB: "set A \<union> set B = set (list_files W)" using setL LAB by simp
  have "(key, m) \<in> set (list_files W)" using m setAB by blast
  then have mnow: "m = now" using mtime_unique [OF dW _ inW] F by simp
  have dL: "distinct (map fst L)" unfolding L_def by (rule distinct_ranked [OF dW])
  have "sorted_wrt (\<lambda>a b. snd b \<le> snd a) L" unfolding L_def by (rule sorted_sort_desc)
  then have newer: "\<forall>x\<in>set A. \<forall>y\<in>set B. snd y \<le> snd x"
    unfolding LAB sorted_wrt_append by blast
  have disj: "fst ` set A \<inter> fst ` set B = {}"
    using dL unfolding LAB by (simp only: map_append distinct_append set_map)
  have nonempty: "B \<noteq> []" using m by auto
  then have "cache_size < length L" unfolding B_def by simp
  then have len: "length A = cache_size" unfolding A_def by simp
  have "distinct (map fst A)" using dL unfolding LAB by simp
  then have "distinct A" by (simp only: distinct_map)
  then have card: "card (set A) = cache_size" using len by (simp only: distinct_card)
  have sub: "set A \<subseteq> G ` set (filter P dir)"
  proof
    fix x assume x: "x \<in> set A"
    obtain k n where kn: "x = (k, n)" by (cases x)
    have a: "fst x \<in> fst ` set A" using x by (rule imageI)
    have b: "fst (key, m) \<in> fst ` set B" using m by (rule imageI)
    have "fst x \<noteq> fst (key, m)"
    proof
      assume "fst x = fst (key, m)"
      with b have "fst x \<in> fst ` set B" by (simp only:)
      with a have "fst x \<in> fst ` set A \<inter> fst ` set B" by (rule IntI)
      then show False by (simp only: disj empty_iff)
    qed
    then have k: "k \<noteq> key" by (simp add: kn)
    have "\<forall>y\<in>set B. snd y \<le> snd x" using newer x by (rule bspec)
    then have "snd (key, m) \<le> snd x" using m by (rule bspec)
    then have n: "now \<le> n" by (simp add: kn mnow)
    have "x \<in> set (list_files W)" using x setAB by blast
    then have "x \<in> G ` set W" by (simp only: list_files_def set_map G_def)
    then obtain e where e: "e \<in> set W" "x = G e" by (rule imageE)
    obtain k' f where kf: "e = (k', f)" by (cases e)
    from e(2) have xe: "k' = k" "n = mtime f" by (simp_all add: kn kf G_def)
    have "(k, f) \<in> set W" using e(1) kf xe(1) by simp
    then have "(k, f) \<in> set dir" unfolding W_def using k by (rule update_other)
    moreover have "P (k, f)" using k n xe(2) by (simp add: P_def)
    ultimately have "(k, f) \<in> set (filter P dir)" by simp
    then have "G (k, f) \<in> G ` set (filter P dir)" by (rule imageI)
    then show "x \<in> G ` set (filter P dir)" by (simp only: e(2) kf xe(1))
  qed
  have "finite (G ` set (filter P dir))" by simp
  then have "card (set A) \<le> card (G ` set (filter P dir))" using sub by (rule card_mono)
  also have "\<dots> \<le> card (set (filter P dir))" by (rule card_image_le) simp
  also have "\<dots> \<le> length (filter P dir)" by (rule card_length)
  finally have "cache_size \<le> length (filter P dir)" by (simp only: card)
  then show False using few unfolding P_def by linarith
qed

text \<open>
  C1, as stated, fails: in a directory that holds ten entries modified at time 7, a save
  of the text \<open>a\<close> at time 7 writes the new entry and \<open>_cleanup_old_cache\<close> removes it
  at once (it is the eleventh in the ranking, no entry being older), so the directory is
  left as it was, the key is returned, and loading under that key gives \<open>None\<close>. The
  same happens when the clock reads 6 at the save, whatever the order of the listing.
\<close>

theorem fresh_entry_evicted:
  "save_to_cache sample_md5 (io_fine 7) ten_files (ascii ''a'')
     = (ten_files, Some (ascii ''0cc175b9c0f1b6a831c399e269772661''))
   \<and> save_to_cache sample_md5 (io_fine 6) ten_files (ascii ''a'')
     = (ten_files, Some (ascii ''0cc175b9c0f1b6a831c399e269772661''))
   \<and> load_from_cache (io_fine 8) ten_files (Some (ascii ''0cc175b9c0f1b6a831c399e269772661''))
     = None"
  by (simp add: save_to_cache_def get_cache_key_def utf8_encodable_def is_surrogate_def
      sample_md5_def io_fine_def cleanup_old_cache_def doomed_def list_files_def sort_desc_def
      cache_size_def ten_files_def old_file_def load_from_cache_def ascii_def)

text \<open>
  C1, amended. For every text \<open>t\<close> without a lone surrogate (the empty text and texts
  longer than the chunk size included), every hash function and every directory with
  distinct file names: if the calls of the save succeed and fewer than ten other entries
  have a modification time at or after the time of the save, then \<open>save_to_cache\<close>
  returns the key of \<open>t\<close>, and \<open>load_from_cache\<close> under the returned key, when its
  read succeeds, returns exactly \<open>t\<close>.
\<close>

theorem cache_round_trip:
  assumes "distinct (map fst dir)" "utf8_encodable t"
    and "length (filter (\<lambda>(k, f). k \<noteq> h t \<and> now \<le> mtime f) dir) < cache_size"
    and "read_ok io2"
  shows "snd (save_to_cache h (io_fine now) dir t) = Some (h t)
       \<and> load_from_cache io2 (fst (save_to_cache h (io_fine now) dir t))
           (snd (save_to_cache h (io_fine now) dir t)) = Some t"
proof -
  define F where "F = \<lparr>mtime = now,
       payload = Some \<lparr>chunks = split_chunks chunk_size t, timestamp = now\<rparr>\<rparr>"
  define W where "W = AList.update (h t) F dir"
  have mF: "mtime F = now" by (simp add: F_def)
  have "h t \<notin> set (doomed (io_fine now) (AList.update (h t) F dir))"
    using assms(1) assms(3) mF by (rule fresh_entry_kept)
  then have nd: "h t \<notin> set (doomed (io_fine now) W)" unfolding W_def .
  have "map_of W (h t) = Some F" by (simp add: W_def update_conv')
  then have m: "map_of (cleanup_old_cache (io_fine now) W) (h t) = Some F"
    using nd by (simp add: cleanup_old_cache_def listdir_fine map_of_filter_key)
  have s: "save_to_cache h (io_fine now) dir t = (cleanup_old_cache (io_fine now) W, Some (h t))"
    unfolding W_def F_def by (rule save_fine [OF assms(2)])
  have "concat (chunks \<lparr>chunks = split_chunks chunk_size t, timestamp = now\<rparr>) = t"
    by (simp add: concat_split_chunks chunk_size_pos)
  then show ?thesis
    using assms(4) m by (simp add: s load_from_cache_def F_def)
qed

theorem cache_round_trip_witness:
  "load_from_cache (io_fine 9) (fst (save_to_cache sample_md5 (io_fine 8) ten_files (ascii ''a'')))
      (snd (save_to_cache sample_md5 (io_fine 8) ten_files (ascii ''a''))) = Some (ascii ''a'')
   \<and> load_from_cache (io_fine 9) (fst (save_to_cache sample_md5 (io_fine 8) [] []))
      (snd (save_to_cache sample_md5 (io_fine 8) [] [])) = Some []"
proof -
  have d: "distinct (map fst ten_files)" by (simp add: ten_files_def ascii_def)
  have u: "utf8_encodable (ascii ''a'')" "utf8_encodable []"
    by (simp_all add: utf8_encodable_def is_surrogate_def ascii_def)
  have f: "length (filter (\<lambda>(k, f). k \<noteq> sample_md5 (ascii ''a'') \<and> 8 \<le> mtime f) ten_files)
      < cache_size"
    by (simp add: ten_files_def old_file_def cache_size_def)
  have r: "read_ok (io_fine 9)" by (simp add: io_fine_def)
  have d0: "distinct (map fst ([] :: cache_dir))" by simp
  have f0: "length (filter (\<lambda>(k, f). k \<noteq> sample_md5 [] \<and> 8 \<le> mtime f) ([] :: cache_dir))
      < cache_size"
    by (simp add: cache_size_def)
  have 1: "load_from_cache (io_fine 9)
      (fst (save_to_cache sample_md5 (io_fine 8) ten_files (ascii ''a'')))
      (snd (save_to_cache sample_md5 (io_fine 8) ten_files (ascii ''a''))) = Some (ascii ''a'')"
    using cache_round_trip [where dir = ten_files and t = "ascii ''a''" and h = sample_md5
        and now = 8 and ?io2.0 = "io_fine 9"] d u(1) f r by blast
  have 2: "load_from_cache (io_fine 9) (fst (save_to_cache sample_md5 (io_fine 8) [] []))
      (snd (save_to_cache sample_md5 (io_fine 8) [] [])) = Some []"
    using cache_round_trip [where dir = "[]" and t = "[]" and h = sample_md5
        and now = 8 and ?io2.0 = "io_fine 9"] d0 u(2) f0 r by blast
  from 1 2 show ?thesis by (rule conjI)
qed

end
